theory Spec2Isabelle
  imports Main "HOL-Library.Signed_Division" "HOL-Library.AList"
begin

section \<open>Values shared by the whole broker\<close>

text \<open>
  A \<open>*Message\<close> is a reference: \<open>None\<close> is Go's \<open>nil\<close>, \<open>Some a\<close> points at the
  message object stored at address \<open>a\<close>. Go's \<open>int\<close> is modelled by \<open>int\<close>; every index
  computed below stays between \<open>0\<close> and the length of an allocated slice, so the 64-bit
  wrap-around never comes into play. Go's \<open>%\<close> truncates towards zero, which is \<open>smod\<close>.
\<close>

type_synonym addr = nat
type_synonym msg_ptr = "addr option"

datatype panic =
    MakeSliceLenOutOfRange
  | MakeChanSizeOutOfRange
  | IndexOutOfRange
  | IntegerDivideByZero
  | NilPointerDereference
  | CloseOfClosedChannel
  | SendOnClosedChannel

section \<open>pubsub/models.go: RingBuffer\<close>

record RingBuffer =
  rb_buffer :: "msg_ptr list"
  rb_size :: int
  rb_head :: int
  rb_tail :: int
  rb_count :: int

definition NewRingBuffer :: "int \<Rightarrow> panic + RingBuffer" where
  "NewRingBuffer sz =
     (if sz < 0 then Inl MakeSliceLenOutOfRange
      else Inr \<lparr>rb_buffer = replicate (nat sz) None, rb_size = sz,
                rb_head = 0, rb_tail = 0, rb_count = 0\<rparr>)"

definition Add :: "RingBuffer \<Rightarrow> msg_ptr \<Rightarrow> panic + RingBuffer" where
  "Add rb msg =
     (if rb_tail rb < 0 \<or> int (length (rb_buffer rb)) \<le> rb_tail rb then Inl IndexOutOfRange
      else if rb_size rb = 0 then Inl IntegerDivideByZero
      else if rb_count rb < rb_size rb
        then Inr (rb\<lparr>rb_buffer := (rb_buffer rb)[nat (rb_tail rb) := msg],
                     rb_tail := (rb_tail rb + 1) smod rb_size rb,
                     rb_count := rb_count rb + 1\<rparr>)
        else Inr (rb\<lparr>rb_buffer := (rb_buffer rb)[nat (rb_tail rb) := msg],
                     rb_tail := (rb_tail rb + 1) smod rb_size rb,
                     rb_head := (rb_head rb + 1) smod rb_size rb\<rparr>))"

text \<open>The first loop of \<open>GetLastN\<close>: \<open>for i := 0; i < n; i++\<close>, walking back from \<open>start\<close>.\<close>

function collect_loop :: "RingBuffer \<Rightarrow> int \<Rightarrow> int \<Rightarrow> int \<Rightarrow> msg_ptr list \<Rightarrow> panic + msg_ptr list" where
  "collect_loop rb start n i messages =
     (if i < n then
        (if (start - i + rb_size rb) smod rb_size rb < 0
            \<or> int (length (rb_buffer rb)) \<le> (start - i + rb_size rb) smod rb_size rb
         then Inl IndexOutOfRange
         else (case rb_buffer rb ! nat ((start - i + rb_size rb) smod rb_size rb) of
                 None \<Rightarrow> collect_loop rb start n (i + 1) messages
               | Some a \<Rightarrow> collect_loop rb start n (i + 1) (messages @ [Some a])))
      else Inr messages)"
  by pat_completeness auto
termination
  by (relation "measure (\<lambda>(rb, start, n, i, messages). nat (n - i))") auto

text \<open>The second loop: the in-place reversal \<open>for i, j := 0, len-1; i < j; i, j = i+1, j-1\<close>.\<close>

function reverse_loop :: "'a list \<Rightarrow> int \<Rightarrow> int \<Rightarrow> 'a list" where
  "reverse_loop messages i j =
     (if i < j
      then reverse_loop (messages[nat i := messages ! nat j, nat j := messages ! nat i]) (i + 1) (j - 1)
      else messages)"
  by pat_completeness auto
termination
  by (relation "measure (\<lambda>(messages, i, j). nat (j - i))") auto

definition GetLastN :: "RingBuffer \<Rightarrow> int \<Rightarrow> panic + msg_ptr list" where
  "GetLastN rb n0 =
     (if n0 \<le> 0 \<or> rb_count rb = 0 then Inr []
      else let n = (if n0 > rb_count rb then rb_count rb else n0) in
        if n < 0 then Inl MakeSliceLenOutOfRange
        else if rb_size rb = 0 then Inl IntegerDivideByZero
        else (case collect_loop rb ((rb_tail rb - 1 + rb_size rb) smod rb_size rb) n 0 [] of
                Inl p \<Rightarrow> Inl p
              | Inr messages \<Rightarrow> Inr (reverse_loop messages 0 (int (length messages) - 1))))"

definition Count :: "RingBuffer \<Rightarrow> int" where
  "Count rb = rb_count rb"

text \<open>A sequence of \<open>Add\<close> calls on one ring, oldest call first; a panic ends the run.\<close>

fun add_all :: "RingBuffer \<Rightarrow> msg_ptr list \<Rightarrow> panic + RingBuffer" where
  "add_all rb [] = Inr rb"
| "add_all rb (m # ms) = (case Add rb m of Inl p \<Rightarrow> Inl p | Inr rb' \<Rightarrow> add_all rb' ms)"

text \<open>
  What a ring of capacity \<open>C\<close> holds after the messages \<open>xs\<close> were added to it, oldest first:
  message number \<open>j\<close> sits in slot \<open>j mod C\<close> as long as fewer than \<open>C\<close> messages followed it.
\<close>

definition ring_holds :: "int \<Rightarrow> msg_ptr list \<Rightarrow> RingBuffer \<Rightarrow> bool" where
  "ring_holds C xs rb \<longleftrightarrow>
     rb_size rb = C \<and> length (rb_buffer rb) = nat C
     \<and> rb_tail rb = int (length xs) mod C
     \<and> rb_count rb = min (int (length xs)) C
     \<and> rb_head rb = (if int (length xs) < C then 0 else int (length xs) mod C)
     \<and> (\<forall>j < length xs. int (length xs) - C \<le> int j \<longrightarrow> rb_buffer rb ! nat (int j mod C) = xs ! j)"

section \<open>pubsub/models.go: Message, Subscriber, Topic, Config\<close>

text \<open>
  \<open>time.Time\<close> values are integers (an instant on the clock); the payload, an
  \<open>interface{}\<close> the broker never inspects, is kept as its JSON text. A \<open>chan *Message\<close> is
  a reference too: \<open>MessageChan\<close> holds the identity of a channel object, whose buffer,
  capacity and closed flag live in the store \<open>chans\<close> below.
\<close>

type_synonym time = int
type_synonym chan_id = nat

record Message =
  msg_ID :: string
  msg_Payload :: string
  msg_Topic :: string
  msg_Timestamp :: time

record channel =
  ch_buf :: "msg_ptr list"
  ch_cap :: nat
  ch_closed :: bool

record Subscriber =
  ClientID :: string
  TopicName :: string
  MessageChan :: chan_id
  LastSeen :: time

text \<open>
  Go maps with string keys are association lists with \<open>map_of\<close> as lookup, \<open>AList.update\<close> as
  assignment and \<open>AList.delete\<close> as \<open>delete\<close>. A \<open>range\<close> over a Go map visits the entries in
  an order the runtime chooses; the list order stands for one such choice, and no statement
  below depends on it.
\<close>

record Topic =
  Name :: string
  Subscribers :: "(string \<times> Subscriber) list"
  Messages :: RingBuffer
  CreatedAt :: time

record TopicInfo =
  ti_Name :: string
  ti_Subscribers :: int

record Config =
  RingBufferSize :: int
  ChannelBufferSize :: int

definition DefaultConfig :: Config where
  "DefaultConfig = \<lparr>RingBufferSize = 100, ChannelBufferSize = 100\<rparr>"

section \<open>The pubsub service (package pubsub, service implementation)\<close>

text \<open>
  A goroutine started by \<open>Publish\<close> or \<open>Subscribe\<close> is recorded with the values its closure
  captured; it runs later, when the scheduler picks it (\<open>run_goroutine\<close>).
\<close>

datatype goroutine =
    FanOut Subscriber msg_ptr
  | Replay Subscriber "msg_ptr list"

text \<open>
  The state is the \<open>service\<close> struct (\<open>topics\<close>, \<open>config\<close>, \<open>startTime\<close>, and \<open>shutdown\<close>:
  whether the shutdown channel has been closed) together with the memory it points into:
  the message objects (\<open>heap\<close>), the channel objects (\<open>chans\<close>, \<open>next_chan\<close> being the next
  identity \<open>make\<close> hands out) and the goroutines started and not yet run (\<open>spawned\<close>).
  The locks are not modelled: every operation below is one atomic step.
\<close>

record service =
  topics :: "(string \<times> Topic) list"
  config :: Config
  startTime :: time
  shutdown :: bool
  heap :: "addr \<Rightarrow> Message"
  chans :: "chan_id \<Rightarrow> channel"
  next_chan :: chan_id
  spawned :: "goroutine list"

text \<open>
  What a call hands back: a value, a Go \<open>error\<close> (these are built with \<open>fmt.Errorf\<close>, so
  an error is its text), or a panic. After a panic the process is gone and the state
  returned with it means nothing.
\<close>

datatype 'a result = Ok 'a | Err string | Panicked panic

definition topic_not_found :: "string \<Rightarrow> string" where
  "topic_not_found name = ''topic '' @ name @ '' not found''"

definition topic_already_exists :: "string \<Rightarrow> string" where
  "topic_already_exists name = ''topic '' @ name @ '' already exists''"

definition already_subscribed :: "string \<Rightarrow> string \<Rightarrow> string" where
  "already_subscribed clientID topicName =
     ''client '' @ clientID @ '' already subscribed to topic '' @ topicName"

definition not_subscribed :: "string \<Rightarrow> string \<Rightarrow> string" where
  "not_subscribed clientID topicName =
     ''client '' @ clientID @ '' not subscribed to topic '' @ topicName"

definition InitService :: "Config option \<Rightarrow> (addr \<Rightarrow> Message) \<Rightarrow> service" where
  "InitService cfg h =
     \<lparr>topics = [], config = (case cfg of None \<Rightarrow> DefaultConfig | Some c \<Rightarrow> c),
      startTime = 0, shutdown = False, heap = h,
      chans = (\<lambda>_. \<lparr>ch_buf = [], ch_cap = 0, ch_closed = False\<rparr>), next_chan = 0, spawned = []\<rparr>"

definition Start :: "time \<Rightarrow> service \<Rightarrow> unit result \<times> service" where
  "Start now s = (Ok (), s\<lparr>startTime := now\<rparr>)"

text \<open>\<open>Stop\<close> closes the shutdown channel; nothing ever adds to the wait group, so the wait ends at once.\<close>

definition Stop :: "service \<Rightarrow> unit result \<times> service" where
  "Stop s = (if shutdown s then (Panicked CloseOfClosedChannel, s)
             else (Ok (), s\<lparr>shutdown := True\<rparr>))"

definition CreateTopic :: "time \<Rightarrow> string \<Rightarrow> service \<Rightarrow> unit result \<times> service" where
  "CreateTopic now name s =
     (case map_of (topics s) name of
        Some _ \<Rightarrow> (Err (topic_already_exists name), s)
      | None \<Rightarrow>
          (case NewRingBuffer (RingBufferSize (config s)) of
             Inl p \<Rightarrow> (Panicked p, s)
           | Inr rb \<Rightarrow>
               (Ok (), s\<lparr>topics := AList.update name
                            \<lparr>Name = name, Subscribers = [], Messages = rb, CreatedAt = now\<rparr>
                            (topics s)\<rparr>)))"

text \<open>\<open>close(ch)\<close>: closing a closed channel panics.\<close>

definition close_chan :: "chan_id \<Rightarrow> (chan_id \<Rightarrow> channel) \<Rightarrow> panic + (chan_id \<Rightarrow> channel)" where
  "close_chan c cs =
     (if ch_closed (cs c) then Inl CloseOfClosedChannel
      else Inr (cs(c := (cs c)\<lparr>ch_closed := True\<rparr>)))"

text \<open>The loop of \<open>DeleteTopic\<close> over the topic's subscribers.\<close>

fun close_all :: "Subscriber list \<Rightarrow> (chan_id \<Rightarrow> channel) \<Rightarrow> panic + (chan_id \<Rightarrow> channel)" where
  "close_all [] cs = Inr cs"
| "close_all (subscriber # rest) cs =
     (case close_chan (MessageChan subscriber) cs of
        Inl p \<Rightarrow> Inl p
      | Inr cs' \<Rightarrow> close_all rest cs')"

definition DeleteTopic :: "string \<Rightarrow> service \<Rightarrow> unit result \<times> service" where
  "DeleteTopic name s =
     (case map_of (topics s) name of
        None \<Rightarrow> (Err (topic_not_found name), s)
      | Some topic \<Rightarrow>
          (case close_all (map snd (Subscribers topic)) (chans s) of
             Inl p \<Rightarrow> (Panicked p, s)
           | Inr cs \<Rightarrow> (Ok (), s\<lparr>chans := cs, topics := AList.delete name (topics s)\<rparr>)))"

definition GetTopic :: "string \<Rightarrow> service \<Rightarrow> Topic result \<times> service" where
  "GetTopic name s =
     (case map_of (topics s) name of
        None \<Rightarrow> (Err (topic_not_found name), s)
      | Some topic \<Rightarrow> (Ok topic, s))"

definition ListTopics :: "service \<Rightarrow> TopicInfo list result \<times> service" where
  "ListTopics s =
     (Ok (map (\<lambda>(name, topic).
             \<lparr>ti_Name = name, ti_Subscribers = int (length (Subscribers topic))\<rparr>) (topics s)), s)"

text \<open>\<open>make(chan *Message, n)\<close> panics on a negative \<open>n\<close>.\<close>

definition make_chan :: "int \<Rightarrow> panic + channel" where
  "make_chan n = (if n < 0 then Inl MakeChanSizeOutOfRange
                  else Inr \<lparr>ch_buf = [], ch_cap = nat n, ch_closed = False\<rparr>)"

definition Subscribe ::
  "time \<Rightarrow> string \<Rightarrow> string \<Rightarrow> int \<Rightarrow> service \<Rightarrow> Subscriber result \<times> service" where
  "Subscribe now topicName clientID lastN s =
     (case map_of (topics s) topicName of
        None \<Rightarrow> (Err (topic_not_found topicName), s)
      | Some topic \<Rightarrow>
          (case map_of (Subscribers topic) clientID of
             Some _ \<Rightarrow> (Err (already_subscribed clientID topicName), s)
           | None \<Rightarrow>
               (case make_chan (ChannelBufferSize (config s)) of
                  Inl p \<Rightarrow> (Panicked p, s)
                | Inr ch \<Rightarrow>
                    let subscriber = \<lparr>ClientID = clientID, TopicName = topicName,
                                      MessageChan = next_chan s, LastSeen = now\<rparr>;
                        s1 = s\<lparr>chans := (chans s)(next_chan s := ch),
                               next_chan := Suc (next_chan s),
                               topics := AList.update topicName
                                 (topic\<lparr>Subscribers :=
                                    AList.update clientID subscriber (Subscribers topic)\<rparr>)
                                 (topics s)\<rparr>
                    in if lastN > 0 then
                         (case GetLastN (Messages topic) lastN of
                            Inl p \<Rightarrow> (Panicked p, s1)
                          | Inr historicalMessages \<Rightarrow>
                              (Ok subscriber,
                               s1\<lparr>spawned := spawned s1 @ [Replay subscriber historicalMessages]\<rparr>))
                       else (Ok subscriber, s1))))"

definition Unsubscribe :: "string \<Rightarrow> string \<Rightarrow> service \<Rightarrow> unit result \<times> service" where
  "Unsubscribe topicName clientID s =
     (case map_of (topics s) topicName of
        None \<Rightarrow> (Err (topic_not_found topicName), s)
      | Some topic \<Rightarrow>
          (case map_of (Subscribers topic) clientID of
             None \<Rightarrow> (Err (not_subscribed clientID topicName), s)
           | Some subscriber \<Rightarrow>
               (case close_chan (MessageChan subscriber) (chans s) of
                  Inl p \<Rightarrow> (Panicked p, s)
                | Inr cs \<Rightarrow>
                    (Ok (), s\<lparr>chans := cs,
                              topics := AList.update topicName
                                (topic\<lparr>Subscribers := AList.delete clientID (Subscribers topic)\<rparr>)
                                (topics s)\<rparr>))))"

text \<open>
  \<open>Publish\<close>: \<open>now\<close> is what \<open>time.Now()\<close> returns and \<open>uuid\<close> what \<open>uuid.New().String()\<close>
  would return. The message is stamped through the pointer, the pointer goes into the ring,
  and one goroutine per subscriber in the snapshot is started with the same pointer.
\<close>

definition stamp :: "time \<Rightarrow> string \<Rightarrow> string \<Rightarrow> Message \<Rightarrow> Message" where
  "stamp now uuid topicName m =
     m\<lparr>msg_Topic := topicName, msg_Timestamp := now,
       msg_ID := (if msg_ID m = [] then uuid else msg_ID m)\<rparr>"

definition Publish ::
  "time \<Rightarrow> string \<Rightarrow> string \<Rightarrow> msg_ptr \<Rightarrow> service \<Rightarrow> unit result \<times> service" where
  "Publish now uuid topicName message s =
     (case map_of (topics s) topicName of
        None \<Rightarrow> (Err (topic_not_found topicName), s)
      | Some topic \<Rightarrow>
          (case message of
             None \<Rightarrow> (Panicked NilPointerDereference, s)
           | Some a \<Rightarrow>
               let s1 = s\<lparr>heap := (heap s)(a := stamp now uuid topicName (heap s a))\<rparr> in
               (case Add (Messages topic) message of
                  Inl p \<Rightarrow> (Panicked p, s1)
                | Inr rb \<Rightarrow>
                    (Ok (), s1\<lparr>topics := AList.update topicName (topic\<lparr>Messages := rb\<rparr>) (topics s1),
                               spawned := spawned s1 @
                                 map (\<lambda>subscriber. FanOut subscriber message)
                                     (map snd (Subscribers topic))\<rparr>))))"

subsection \<open>The goroutines: non-blocking sends\<close>

text \<open>
  Both goroutines send with
  \<open>select { case ch <- msg: ...; case <-s.shutdown: return; default: log }\<close>.
  The send can proceed when the buffer has room, and also when the channel is closed (it then
  panics); the shutdown case can proceed once \<open>Stop\<close> has closed the shutdown channel. When
  both can proceed Go picks one of them at random: \<open>pick_shutdown\<close> is that pick. There is
  never a receiver blocked on these channels (the session polls them), so a buffer without
  room means the send cannot proceed.
\<close>

datatype select_case = SendCase | ShutdownCase | DefaultCase

definition select_send :: "bool \<Rightarrow> service \<Rightarrow> chan_id \<Rightarrow> select_case" where
  "select_send pick_shutdown s c =
     (let send_ready = (ch_closed (chans s c) \<or> length (ch_buf (chans s c)) < ch_cap (chans s c));
          shutdown_ready = shutdown s
      in if send_ready \<and> shutdown_ready then (if pick_shutdown then ShutdownCase else SendCase)
         else if send_ready then SendCase
         else if shutdown_ready then ShutdownCase
         else DefaultCase)"

definition chan_send :: "chan_id \<Rightarrow> msg_ptr \<Rightarrow> service \<Rightarrow> unit result \<times> service" where
  "chan_send c msg s =
     (if ch_closed (chans s c) then (Panicked SendOnClosedChannel, s)
      else (Ok (), s\<lparr>chans := (chans s)(c := (chans s c)\<lparr>ch_buf := ch_buf (chans s c) @ [msg]\<rparr>)\<rparr>))"

definition run_fanout :: "bool \<Rightarrow> Subscriber \<Rightarrow> msg_ptr \<Rightarrow> service \<Rightarrow> unit result \<times> service" where
  "run_fanout pick_shutdown sub message s =
     (case select_send pick_shutdown s (MessageChan sub) of
        SendCase \<Rightarrow> chan_send (MessageChan sub) message s
      | ShutdownCase \<Rightarrow> (Ok (), s)
      | DefaultCase \<Rightarrow> (Ok (), s))"

text \<open>The replay loop of \<open>Subscribe\<close>; \<open>pick i\<close> is the runtime's pick at iteration \<open>i\<close>.\<close>

fun run_replay ::
  "(nat \<Rightarrow> bool) \<Rightarrow> nat \<Rightarrow> Subscriber \<Rightarrow> msg_ptr list \<Rightarrow> service \<Rightarrow> unit result \<times> service" where
  "run_replay pick i subscriber [] s = (Ok (), s)"
| "run_replay pick i subscriber (msg # rest) s =
     (case select_send (pick i) s (MessageChan subscriber) of
        SendCase \<Rightarrow>
          (case chan_send (MessageChan subscriber) msg s of
             (Ok u, s') \<Rightarrow> run_replay pick (Suc i) subscriber rest s'
           | (Err e, s') \<Rightarrow> (Err e, s')
           | (Panicked p, s') \<Rightarrow> (Panicked p, s'))
      | ShutdownCase \<Rightarrow> (Ok (), s)
      | DefaultCase \<Rightarrow> run_replay pick (Suc i) subscriber rest s)"

definition run_goroutine :: "(nat \<Rightarrow> bool) \<Rightarrow> goroutine \<Rightarrow> service \<Rightarrow> unit result \<times> service" where
  "run_goroutine pick g s =
     (case g of
        FanOut sub message \<Rightarrow> run_fanout (pick 0) sub message s
      | Replay subscriber historicalMessages \<Rightarrow> run_replay pick 0 subscriber historicalMessages s)"

text \<open>The scheduler runs the \<open>k\<close>-th pending goroutine to its end.\<close>

definition schedule :: "(nat \<Rightarrow> bool) \<Rightarrow> nat \<Rightarrow> service \<Rightarrow> unit result \<times> service" where
  "schedule pick k s =
     (if k < length (spawned s)
      then run_goroutine pick (spawned s ! k) (s\<lparr>spawned := take k (spawned s) @ drop (Suc k) (spawned s)\<rparr>)
      else (Ok (), s))"

text \<open>
  The scheduler may also let other work in between two iterations of a replay loop:
  \<open>replay_step\<close> runs one iteration of the \<open>k\<close>-th pending goroutine when that is a replay
  with messages left, and leaves the rest of the loop pending in its place.
\<close>

definition replay_step :: "bool \<Rightarrow> nat \<Rightarrow> service \<Rightarrow> unit result \<times> service" where
  "replay_step pick_shutdown k s =
     (if k < length (spawned s) then
        (case spawned s ! k of
           Replay subscriber (msg # rest) \<Rightarrow>
             (case select_send pick_shutdown s (MessageChan subscriber) of
                SendCase \<Rightarrow>
                  (case chan_send (MessageChan subscriber) msg s of
                     (Ok u, s') \<Rightarrow> (Ok (), s'\<lparr>spawned := (spawned s')[k := Replay subscriber rest]\<rparr>)
                   | (Err e, s') \<Rightarrow> (Err e, s')
                   | (Panicked p, s') \<Rightarrow> (Panicked p, s'))
              | ShutdownCase \<Rightarrow>
                  (Ok (), s\<lparr>spawned := take k (spawned s) @ drop (Suc k) (spawned s)\<rparr>)
              | DefaultCase \<Rightarrow>
                  (Ok (), s\<lparr>spawned := (spawned s)[k := Replay subscriber rest]\<rparr>))
         | _ \<Rightarrow> (Ok (), s))
      else (Ok (), s))"

text \<open>Running a list of goroutines one after the other, each with its own picks.\<close>

fun run_all :: "(nat \<Rightarrow> nat \<Rightarrow> bool) \<Rightarrow> nat \<Rightarrow> goroutine list \<Rightarrow> service \<Rightarrow> unit result \<times> service" where
  "run_all picks k [] s = (Ok (), s)"
| "run_all picks k (g # gs) s =
     (case run_goroutine (picks k) g s of
        (Ok u, s') \<Rightarrow> run_all picks (Suc k) gs s'
      | (Err e, s') \<Rightarrow> (Err e, s')
      | (Panicked p, s') \<Rightarrow> (Panicked p, s'))"

text \<open>
  The receiving end, as the session's \<open>messageSender\<close> uses it
  (\<open>select { case message := <-ch: ...; default: }\<close>): \<open>Some msg\<close> is a message received,
  \<open>None\<close> the default case. A closed channel whose buffer is empty delivers \<open>nil\<close> at once.
\<close>

definition chan_recv :: "chan_id \<Rightarrow> service \<Rightarrow> msg_ptr option \<times> service" where
  "chan_recv c s =
     (case ch_buf (chans s c) of
        [] \<Rightarrow> (if ch_closed (chans s c) then (Some None, s) else (None, s))
      | msg # rest \<Rightarrow> (Some msg, s\<lparr>chans := (chans s)(c := (chans s c)\<lparr>ch_buf := rest\<rparr>)\<rparr>))"

subsection \<open>Reachable states\<close>

text \<open>
  The states the broker can be in: it starts from \<open>InitService\<close>, and every step is a call
  of the service that did not panic, a goroutine (or one iteration of a replay) run by the
  scheduler, a receive by a session, or a write by a caller to a message object it holds.
\<close>

inductive reachable :: "service \<Rightarrow> bool" where
  r_init: "reachable (InitService cfg h)"
| r_start: "reachable s \<Longrightarrow> Start now s = (Ok u, s') \<Longrightarrow> reachable s'"
| r_stop: "reachable s \<Longrightarrow> Stop s = (Ok u, s') \<Longrightarrow> reachable s'"
| r_create: "reachable s \<Longrightarrow> CreateTopic now name s = (Ok u, s') \<Longrightarrow> reachable s'"
| r_delete: "reachable s \<Longrightarrow> DeleteTopic name s = (Ok u, s') \<Longrightarrow> reachable s'"
| r_subscribe: "reachable s \<Longrightarrow> Subscribe now topicName clientID lastN s = (Ok sub, s') \<Longrightarrow> reachable s'"
| r_unsubscribe: "reachable s \<Longrightarrow> Unsubscribe topicName clientID s = (Ok u, s') \<Longrightarrow> reachable s'"
| r_publish: "reachable s \<Longrightarrow> Publish now uuid topicName message s = (Ok u, s') \<Longrightarrow> reachable s'"
| r_schedule: "reachable s \<Longrightarrow> schedule pick k s = (Ok u, s') \<Longrightarrow> reachable s'"
| r_replay_step: "reachable s \<Longrightarrow> replay_step pick_shutdown k s = (Ok u, s') \<Longrightarrow> reachable s'"
| r_recv: "reachable s \<Longrightarrow> chan_recv c s = (r, s') \<Longrightarrow> reachable s'"
| r_write: "reachable s \<Longrightarrow> reachable (s\<lparr>heap := (heap s)(a := m)\<rparr>)"

text \<open>
  The invariant of the reachable states. Every subscriber is stored under its own client
  id, its channel has been allocated, is open and belongs to no other subscriber; every
  ring holds the messages published to its topic.
\<close>

definition sub_ok :: "service \<Rightarrow> string \<Rightarrow> string \<Rightarrow> Subscriber \<Rightarrow> bool" where
  "sub_ok s name clientID sub \<longleftrightarrow>
     ClientID sub = clientID \<and> TopicName sub = name
     \<and> MessageChan sub < next_chan s \<and> \<not> ch_closed (chans s (MessageChan sub))"

definition topic_ok :: "service \<Rightarrow> string \<Rightarrow> Topic \<Rightarrow> bool" where
  "topic_ok s name topic \<longleftrightarrow>
     Name topic = name \<and> distinct (map fst (Subscribers topic))
     \<and> (\<exists>xs. ring_holds (RingBufferSize (config s)) (map Some xs) (Messages topic))
     \<and> (\<forall>clientID sub. map_of (Subscribers topic) clientID = Some sub \<longrightarrow> sub_ok s name clientID sub)"

definition subscriber_of :: "service \<Rightarrow> string \<Rightarrow> string \<Rightarrow> Subscriber option" where
  "subscriber_of s name clientID =
     (case map_of (topics s) name of
        None \<Rightarrow> None
      | Some topic \<Rightarrow> map_of (Subscribers topic) clientID)"

definition chan_unique :: "service \<Rightarrow> bool" where
  "chan_unique s \<longleftrightarrow>
     (\<forall>n1 c1 s1 n2 c2 s2.
        subscriber_of s n1 c1 = Some s1 \<and> subscriber_of s n2 c2 = Some s2
        \<and> MessageChan s1 = MessageChan s2 \<longrightarrow> n1 = n2 \<and> c1 = c2)"

definition wf :: "service \<Rightarrow> bool" where
  "wf s \<longleftrightarrow>
     distinct (map fst (topics s))
     \<and> (\<forall>name topic. map_of (topics s) name = Some topic \<longrightarrow> topic_ok s name topic)
     \<and> chan_unique s"

section \<open>services/gateway/websocket: the publish verb\<close>

record WSRequest =
  req_Type :: string
  req_Topic :: string
  req_Message :: msg_ptr
  req_ClientID :: string
  req_LastN :: int
  req_RequestID :: string

record WSError =
  err_Code :: string
  err_Message :: string

record WSResponse =
  resp_Type :: string
  resp_RequestID :: string
  resp_Topic :: string
  resp_Message :: msg_ptr
  resp_Error :: "WSError option"
  resp_Status :: string
  resp_Msg :: string
  resp_Timestamp :: time

definition WSMessageTypePublish :: string where "WSMessageTypePublish = ''publish''"
definition WSResponseTypeAck :: string where "WSResponseTypeAck = ''ack''"
definition WSResponseTypeError :: string where "WSResponseTypeError = ''error''"
definition ErrorCodeBadRequest :: string where "ErrorCodeBadRequest = ''BAD_REQUEST''"
definition ErrorCodeTopicNotFound :: string where "ErrorCodeTopicNotFound = ''TOPIC_NOT_FOUND''"
definition ErrorCodeInternal :: string where "ErrorCodeInternal = ''INTERNAL''"

text \<open>
  \<open>handlePublish\<close> fills in the response that \<open>handleMessage\<close> then writes to the client.
  The handler reaches the broker through the \<open>pubsub.Service\<close> interface: \<open>publish\<close> is
  that interface's \<open>Publish\<close> method. The message id is read through the request's pointer.
\<close>

definition handlePublish ::
  "(string \<Rightarrow> msg_ptr \<Rightarrow> service \<Rightarrow> unit result \<times> service) \<Rightarrow> WSRequest \<Rightarrow> WSResponse \<Rightarrow> service
     \<Rightarrow> WSResponse result \<times> service" where
  "handlePublish publish req response s =
     (if req_Topic req = [] \<or> req_Message req = None then
        (Ok (response\<lparr>resp_Type := WSResponseTypeError,
               resp_Error := Some \<lparr>err_Code = ErrorCodeBadRequest,
                                    err_Message = ''topic and message are required for publish''\<rparr>\<rparr>), s)
      else if msg_ID (heap s (the (req_Message req))) = [] then
        (Ok (response\<lparr>resp_Type := WSResponseTypeError,
               resp_Error := Some \<lparr>err_Code = ErrorCodeBadRequest,
                                    err_Message = ''message.id is required''\<rparr>\<rparr>), s)
      else
        (case publish (req_Topic req) (req_Message req) s of
           (Err e, s') \<Rightarrow>
             (Ok (response\<lparr>resp_Type := WSResponseTypeError,
                    resp_Error := Some \<lparr>err_Code = (if e = topic_not_found (req_Topic req)
                                                     then ErrorCodeTopicNotFound
                                                     else ErrorCodeInternal),
                                         err_Message = e\<rparr>\<rparr>), s')
         | (Panicked p, s') \<Rightarrow> (Panicked p, s')
         | (Ok u, s') \<Rightarrow>
             (Ok (response\<lparr>resp_Type := WSResponseTypeAck,
                    resp_Topic := req_Topic req,
                    resp_Status := ''ok''\<rparr>), s')))"

subsection \<open>A worked run\<close>

text \<open>
  A small broker (ring capacity 2, queue capacity 2) over a memory of blank messages: the
  topic \<open>orders\<close> is created, client \<open>c1\<close> subscribes, the message object at address 7 is
  published, and the service is stopped. In a second continuation the objects at addresses
  8 and 9 are published instead of stopping, and in a third a second topic is created.
\<close>

definition blank_heap :: "addr \<Rightarrow> Message" where
  "blank_heap = (\<lambda>_. \<lparr>msg_ID = [], msg_Payload = [], msg_Topic = [], msg_Timestamp = 0\<rparr>)"

definition small_config :: Config where
  "small_config = \<lparr>RingBufferSize = 2, ChannelBufferSize = 2\<rparr>"

definition demo_init :: service where
  "demo_init = InitService (Some small_config) blank_heap"

definition demo_topic :: service where
  "demo_topic = snd (CreateTopic 10 ''orders'' demo_init)"

definition demo_subscribed :: service where
  "demo_subscribed = snd (Subscribe 11 ''orders'' ''c1'' 0 demo_topic)"

definition demo_published :: service where
  "demo_published = snd (Publish 12 ''uuid-1'' ''orders'' (Some 7) demo_subscribed)"

definition demo_stopped :: service where
  "demo_stopped = snd (Stop demo_published)"

definition demo_second :: service where
  "demo_second = snd (Publish 13 ''uuid-2'' ''orders'' (Some 8) demo_published)"

definition demo_third :: service where
  "demo_third = snd (Publish 14 ''uuid-3'' ''orders'' (Some 9) demo_second)"

definition demo_two_topics :: service where
  "demo_two_topics = snd (CreateTopic 13 ''audit'' demo_published)"

text \<open>A publish frame for the topic \<open>orders\<close> and the response \<open>handleMessage\<close> prepares for it.\<close>

definition demo_response :: WSResponse where
  "demo_response = \<lparr>resp_Type = [], resp_RequestID = ''r1'', resp_Topic = [], resp_Message = None,
     resp_Error = None, resp_Status = [], resp_Msg = [], resp_Timestamp = 13\<rparr>"

definition demo_request :: "msg_ptr \<Rightarrow> WSRequest" where
  "demo_request m = \<lparr>req_Type = ''publish'', req_Topic = ''orders'', req_Message = m,
     req_ClientID = [], req_LastN = 0, req_RequestID = ''r1''\<rparr>"

text \<open>The runtime picks the shutdown case whenever it can.\<close>

definition shutdown_first :: "nat \<Rightarrow> bool" where
  "shutdown_first i = True"

definition all_shutdown_first :: "nat \<Rightarrow> nat \<Rightarrow> bool" where
  "all_shutdown_first k i = True"

declare reverse_loop.simps [simp del] collect_loop.simps [simp del]

section \<open>Properties of the ring\<close>

lemma smod_nonneg: "0 \<le> a \<Longrightarrow> 0 < b \<Longrightarrow> (a::int) smod b = a mod b"
  by (cases "a = 0") (simp_all add: smod_int_alt_def)

lemma ring_holds_new:
  assumes "0 \<le> C"
  shows "\<exists>rb. NewRingBuffer C = Inr rb \<and> ring_holds C [] rb"
  using assms by (simp add: NewRingBuffer_def ring_holds_def)

lemma mod_shift_neq:
  assumes "0 < d" "d < C"
  shows "(j + d) mod C \<noteq> (j::int) mod C"
proof
  assume "(j + d) mod C = j mod C"
  then have "C dvd (j + d - j)" using mod_eq_dvd_iff by blast
  then have "C dvd d" by simp
  with assms show False using zdvd_not_zless by blast
qed

lemma Add_holds:
  assumes C: "1 \<le> C" and h: "ring_holds C xs rb"
  shows "\<exists>rb'. Add rb m = Inr rb' \<and> ring_holds C (xs @ [m]) rb'
     \<and> rb_count rb' = (if rb_count rb < C then rb_count rb + 1 else C)"
proof -
  let ?L = "int (length xs)"
  from h have sz: "rb_size rb = C" and len: "length (rb_buffer rb) = nat C"
    and tl: "rb_tail rb = ?L mod C" and cnt: "rb_count rb = min ?L C"
    and hd: "rb_head rb = (if ?L < C then 0 else ?L mod C)"
    and buf: "\<And>j. j < length xs \<Longrightarrow> ?L - C \<le> int j \<Longrightarrow> rb_buffer rb ! nat (int j mod C) = xs ! j"
    by (simp_all add: ring_holds_def)
  have t0: "0 \<le> ?L mod C" and t1: "?L mod C < C" using C by simp_all
  have nt: "(?L mod C + 1) smod C = (?L + 1) mod C"
    using C t0 by (simp add: smod_nonneg mod_simps)
  show ?thesis
  proof (cases "?L < C")
    case True
    then have small: "?L mod C = ?L" by simp
    let ?rb' = "rb\<lparr>rb_buffer := (rb_buffer rb)[nat (rb_tail rb) := m],
                     rb_tail := (rb_tail rb + 1) smod rb_size rb,
                     rb_count := rb_count rb + 1\<rparr>"
    have a: "Add rb m = Inr ?rb'"
      using True C t0 t1 by (simp add: Add_def sz len tl cnt)
    have g: "rb_buffer ?rb' ! nat (int j mod C) = (xs @ [m]) ! j" if "j < length (xs @ [m])" for j
    proof (cases "j = length xs")
      case True
      then show ?thesis using t0 t1 by (simp add: tl len small)
    next
      case False
      with that have jl: "j < length xs" by simp
      then have "int j mod C = int j" using True by simp
      then show ?thesis using jl buf [of j] True by (simp add: tl small nth_append)
    qed
    have tl': "rb_tail ?rb' = int (length (xs @ [m])) mod C"
      using nt by (simp add: sz tl add.commute)
    have hd': "rb_head ?rb' = (if int (length (xs @ [m])) < C then 0 else int (length (xs @ [m])) mod C)"
    proof (cases "int (length (xs @ [m])) < C")
      case True then show ?thesis by (simp add: hd)
    next
      case F: False
      with True have "int (length (xs @ [m])) = C" by simp
      then show ?thesis using True by (simp add: hd del: length_append)
    qed
    have cnt': "rb_count ?rb' = min (int (length (xs @ [m]))) C"
      using True by (simp add: cnt)
    have "ring_holds C (xs @ [m]) ?rb'"
      unfolding ring_holds_def using tl' hd' cnt' g by (simp add: sz len)
    with a True show ?thesis by (auto simp add: cnt)
  next
    case False
    let ?rb' = "rb\<lparr>rb_buffer := (rb_buffer rb)[nat (rb_tail rb) := m],
                     rb_tail := (rb_tail rb + 1) smod rb_size rb,
                     rb_head := (rb_head rb + 1) smod rb_size rb\<rparr>"
    have a: "Add rb m = Inr ?rb'"
      using False C t0 t1 by (simp add: Add_def sz len tl cnt)
    have g: "rb_buffer ?rb' ! nat (int j mod C) = (xs @ [m]) ! j"
      if "j < length (xs @ [m])" "int (length (xs @ [m])) - C \<le> int j" for j
    proof (cases "j = length xs")
      case True
      then show ?thesis using t0 t1 by (simp add: tl len)
    next
      case F: False
      with that have jl: "j < length xs" and lo: "?L - C < int j" by simp_all
      have "(int j + (?L - int j)) mod C \<noteq> int j mod C"
        by (rule mod_shift_neq) (use jl lo in auto)
      then have ne: "nat (?L mod C) \<noteq> nat (int j mod C)"
        using t0 C by (simp add: nat_eq_iff)
      show ?thesis using jl lo buf [of j] ne by (simp add: tl nth_append)
    qed
    have tl': "rb_tail ?rb' = int (length (xs @ [m])) mod C"
      using nt by (simp add: sz tl add.commute)
    have hd': "rb_head ?rb' = (if int (length (xs @ [m])) < C then 0 else int (length (xs @ [m])) mod C)"
      using False nt by (simp add: hd sz add.commute)
    have cnt': "rb_count ?rb' = min (int (length (xs @ [m]))) C"
      using False by (simp add: cnt)
    have "ring_holds C (xs @ [m]) ?rb'"
      unfolding ring_holds_def using tl' hd' cnt' g by (simp add: sz len)
    with a False show ?thesis by (auto simp add: cnt)
  qed
qed


lemma add_all_holds:
  assumes "1 \<le> C" "ring_holds C xs rb"
  shows "\<exists>rb'. add_all rb ms = Inr rb' \<and> ring_holds C (xs @ ms) rb'"
  using assms(2)
proof (induction ms arbitrary: xs rb)
  case Nil
  then show ?case by simp
next
  case (Cons m ms)
  from Add_holds [OF assms(1) Cons.prems, of m]
  obtain rb1 where a: "Add rb m = Inr rb1" and h: "ring_holds C (xs @ [m]) rb1" by blast
  from Cons.IH [OF h] show ?case using a by simp
qed

lemma length_reverse_loop: "length (reverse_loop ms i j) = length ms"
proof (induction ms i j rule: reverse_loop.induct)
  case (1 messages i j)
  show ?case
  proof (cases "i < j")
    case True
    with 1 show ?thesis by (subst reverse_loop.simps) simp
  next
    case False
    then show ?thesis by (subst reverse_loop.simps) simp
  qed
qed

lemma nth_reverse_loop:
  "0 \<le> i \<Longrightarrow> j < int (length ms) \<Longrightarrow> k < length ms \<Longrightarrow>
   reverse_loop ms i j ! k = (if i \<le> int k \<and> int k \<le> j then ms ! nat (i + j - int k) else ms ! k)"
proof (induction ms i j arbitrary: k rule: reverse_loop.induct)
  case (1 messages i j)
  show ?case
  proof (cases "i < j")
    case True
    let ?ms' = "messages[nat i := messages ! nat j, nat j := messages ! nat i]"
    have ih: "reverse_loop ?ms' (i + 1) (j - 1) ! k =
        (if i + 1 \<le> int k \<and> int k \<le> j - 1 then ?ms' ! nat (i + 1 + (j - 1) - int k) else ?ms' ! k)"
      using "1.IH" [OF True, of k] "1.prems" by simp
    have step: "reverse_loop messages i j = reverse_loop ?ms' (i + 1) (j - 1)"
      using True by (subst reverse_loop.simps) simp
    have ni: "nat i < length messages" and nj: "nat j < length messages" and ne: "nat i \<noteq> nat j"
      using True "1.prems" by auto
    have upd_i: "?ms' ! nat i = messages ! nat j" and upd_j: "?ms' ! nat j = messages ! nat i"
      using ni nj ne by (simp_all add: nth_list_update)
    have upd_o: "?ms' ! q = messages ! q" if "q \<noteq> nat i" "q \<noteq> nat j" for q
      using that by simp
    consider "int k = i" | "int k = j" | "i < int k" "int k < j" | "int k < i" | "j < int k"
      by linarith
    then show ?thesis
    proof cases
      case 1
      then have k: "k = nat i" and r: "nat (i + j - int k) = nat j" by simp_all
      have "reverse_loop messages i j ! k = ?ms' ! k" unfolding step ih using 1 by simp
      also have "\<dots> = messages ! nat j" unfolding k by (rule upd_i)
      finally show ?thesis using 1 True r by simp
    next
      case 2
      then have k: "k = nat j" and r: "nat (i + j - int k) = nat i" by simp_all
      have "reverse_loop messages i j ! k = ?ms' ! k" unfolding step ih using 2 by simp
      also have "\<dots> = messages ! nat i" unfolding k by (rule upd_j)
      finally show ?thesis using 2 True r by simp
    next
      case 3
      then have n: "nat (i + j - int k) \<noteq> nat i" "nat (i + j - int k) \<noteq> nat j"
        using "1.prems" by auto
      have e: "i + 1 + (j - 1) - int k = i + j - int k" by simp
      have "reverse_loop messages i j ! k = ?ms' ! nat (i + j - int k)"
        unfolding step ih e using 3 by simp
      also have "\<dots> = messages ! nat (i + j - int k)" by (rule upd_o [OF n])
      finally show ?thesis using 3 by simp
    next
      case 4
      then have n: "k \<noteq> nat i" "k \<noteq> nat j" using True "1.prems" by auto
      have "reverse_loop messages i j ! k = ?ms' ! k" unfolding step ih using 4 by simp
      also have "\<dots> = messages ! k" by (rule upd_o [OF n])
      finally show ?thesis using 4 by simp
    next
      case 5
      then have n: "k \<noteq> nat i" "k \<noteq> nat j" using True "1.prems" by auto
      have "reverse_loop messages i j ! k = ?ms' ! k" unfolding step ih using 5 by simp
      also have "\<dots> = messages ! k" by (rule upd_o [OF n])
      finally show ?thesis using 5 True by simp
    qed
  next
    case False
    have "reverse_loop messages i j = messages"
      using False by (subst reverse_loop.simps) simp
    moreover have "i \<le> int k \<and> int k \<le> j \<Longrightarrow> nat (i + j - int k) = k"
      using False by auto
    ultimately show ?thesis by auto
  qed
qed

lemma reverse_loop_rev: "reverse_loop ms 0 (int (length ms) - 1) = rev ms"
proof (rule nth_equalityI)
  show "length (reverse_loop ms 0 (int (length ms) - 1)) = length (rev ms)"
    by (simp add: length_reverse_loop)
next
  fix k assume "k < length (reverse_loop ms 0 (int (length ms) - 1))"
  then have k: "k < length ms" by (simp add: length_reverse_loop)
  then have "nat (int (length ms) - 1 - int k) = length ms - Suc k" by auto
  then show "reverse_loop ms 0 (int (length ms) - 1) ! k = rev ms ! k"
    using k by (simp add: nth_reverse_loop rev_nth)
qed


lemma collect_loop_holds:
  assumes C: "1 \<le> C" and h: "ring_holds C (map Some as) rb"
    and n: "n \<le> min (int (length as)) C"
  shows "0 \<le> i \<Longrightarrow> i \<le> n \<Longrightarrow>
    collect_loop rb ((int (length as) - 1) mod C) n i acc =
      Inr (acc @ map Some (rev (take (nat (n - i)) (drop (nat (int (length as) - n)) as))))"
proof (induction "nat (n - i)" arbitrary: i acc)
  case 0
  then have "\<not> i < n" by simp
  then have "collect_loop rb ((int (length as) - 1) mod C) n i acc = Inr acc"
    by (subst collect_loop.simps) simp
  with 0 show ?case by simp
next
  case (Suc m)
  let ?L = "int (length as)"
  let ?start = "(?L - 1) mod C"
  let ?ys = "drop (nat (?L - n)) as"
  from h have sz: "rb_size rb = C" and len: "length (rb_buffer rb) = nat C"
    and buf: "\<And>j. j < length as \<Longrightarrow> ?L - C \<le> int j \<Longrightarrow>
       rb_buffer rb ! nat (int j mod C) = Some (as ! j)"
    by (simp_all add: ring_holds_def)
  from Suc.hyps have lt: "i < n" by simp
  define j where "j = nat (?L - 1 - i)"
  have j: "int j = ?L - 1 - i" and jl: "j < length as" and jlo: "?L - C \<le> int j"
    using lt n Suc.prems by (auto simp add: j_def)
  have s0: "0 \<le> ?start" using C by simp
  have nonneg: "0 \<le> ?start - i + C" using s0 lt n by simp
  have idx: "(?start - i + rb_size rb) smod rb_size rb = int j mod C"
    using C nonneg by (simp add: sz smod_nonneg j mod_simps)
  have i0: "0 \<le> int j mod C" and i1: "int j mod C < C" using C by simp_all
  have step: "collect_loop rb ?start n i acc = collect_loop rb ?start n (i + 1) (acc @ [Some (as ! j)])"
    using lt i0 i1 buf [OF jl jlo] by (subst collect_loop.simps) (simp add: idx len)
  have m: "m = nat (n - (i + 1))" using Suc.hyps by simp
  have ih: "collect_loop rb ?start n (i + 1) (acc @ [Some (as ! j)]) =
      Inr ((acc @ [Some (as ! j)]) @ map Some (rev (take (nat (n - (i + 1))) ?ys)))"
    using Suc.hyps(1) [OF m] Suc.prems lt by simp
  have ml: "nat (n - (i + 1)) < length ?ys" using lt n Suc.prems by auto
  have "nat (n - i) = Suc (nat (n - (i + 1)))" using lt by simp
  then have tk: "take (nat (n - i)) ?ys = take (nat (n - (i + 1))) ?ys @ [?ys ! nat (n - (i + 1))]"
    using ml by (simp add: take_Suc_conv_app_nth)
  have "nat (?L - n) + nat (n - (i + 1)) = j" using lt n Suc.prems unfolding j_def by linarith
  then have el: "?ys ! nat (n - (i + 1)) = as ! j" using jl by simp
  show ?case unfolding step ih tk el by simp
qed

lemma GetLastN_holds:
  assumes C: "1 \<le> C" and h: "ring_holds C (map Some as) rb"
  shows "GetLastN rb n =
     Inr (map Some (drop (length as - nat (min n (min (int (length as)) C))) as))"
proof (cases "n \<le> 0 \<or> as = []")
  case True
  from h have cnt: "rb_count rb = min (int (length as)) C" by (simp add: ring_holds_def)
  from True show ?thesis using C by (auto simp add: GetLastN_def cnt)
next
  case False
  let ?L = "int (length as)"
  from h have sz: "rb_size rb = C" and cnt: "rb_count rb = min ?L C"
    and tl: "rb_tail rb = ?L mod C"
    by (simp_all add: ring_holds_def)
  define k where "k = min n (min ?L C)"
  have k0: "0 < k" and kle: "k \<le> min ?L C" using False C by (auto simp add: k_def)
  have kk: "(if n > rb_count rb then rb_count rb else n) = k" by (auto simp add: cnt k_def)
  have t0: "0 \<le> ?L mod C" using C by simp
  have "0 \<le> ?L mod C - 1 + C" using t0 C by linarith
  then have start: "(rb_tail rb - 1 + rb_size rb) smod rb_size rb = (?L - 1) mod C"
    using C by (simp add: sz tl smod_nonneg mod_simps)
  have col: "collect_loop rb ((?L - 1) mod C) k 0 [] =
      Inr ([] @ map Some (rev (take (nat (k - 0)) (drop (nat (?L - k)) as))))"
    by (rule collect_loop_holds [OF C h kle]) (use k0 in simp_all)
  have full: "take (nat k) (drop (nat (?L - k)) as) = drop (nat (?L - k)) as"
    using kle by simp
  have dk: "nat (?L - k) = length as - nat k" using k0 kle by simp
  have "0 < ?L" using False by simp
  then have g1: "\<not> (n \<le> 0 \<or> rb_count rb = 0)" using False C unfolding cnt by linarith
  have g2: "\<not> k < 0" and g3: "rb_size rb \<noteq> 0" using k0 C by (simp_all add: sz)
  have col': "collect_loop rb ((?L - 1) mod C) k 0 [] =
      Inr (map Some (rev (drop (nat (?L - k)) as)))"
    using col full by simp
  have "GetLastN rb n = Inr (reverse_loop (map Some (rev (drop (nat (?L - k)) as)))
      0 (int (length (map Some (rev (drop (nat (?L - k)) as)))) - 1))"
    unfolding GetLastN_def Let_def kk start col' using g1 g2 g3 by simp
  also have "\<dots> = Inr (map Some (drop (nat (?L - k)) as))"
    unfolding reverse_loop_rev by (simp add: rev_map)
  finally have "GetLastN rb n = Inr (map Some (drop (length as - nat k) as))"
    unfolding dk .
  then show ?thesis unfolding k_def .
qed


section \<open>The invariant holds in every reachable state\<close>

lemma wf_cong:
  assumes "wf s" "topics s' = topics s" "config s' = config s" "next_chan s' = next_chan s"
    and "\<And>c. ch_closed (chans s' c) = ch_closed (chans s c)"
  shows "wf s'"
  using assms unfolding wf_def topic_ok_def sub_ok_def chan_unique_def subscriber_of_def by simp

lemma chan_send_frame:
  assumes "chan_send c msg s = (r, s')"
  shows "topics s' = topics s \<and> config s' = config s \<and> next_chan s' = next_chan s
    \<and> shutdown s' = shutdown s \<and> heap s' = heap s \<and> spawned s' = spawned s
    \<and> (\<forall>d. ch_closed (chans s' d) = ch_closed (chans s d) \<and> ch_cap (chans s' d) = ch_cap (chans s d))"
  using assms by (auto simp add: chan_send_def split: if_splits)

lemma run_fanout_frame:
  assumes "run_fanout p sub msg s = (r, s')"
  shows "topics s' = topics s \<and> config s' = config s \<and> next_chan s' = next_chan s
    \<and> shutdown s' = shutdown s \<and> heap s' = heap s \<and> spawned s' = spawned s
    \<and> (\<forall>d. ch_closed (chans s' d) = ch_closed (chans s d) \<and> ch_cap (chans s' d) = ch_cap (chans s d))"
  using assms chan_send_frame [of "MessageChan sub" msg s r s']
  by (auto simp add: run_fanout_def split: select_case.splits)

lemma run_replay_frame:
  "run_replay pick i sub msgs s = (r, s') \<Longrightarrow>
   topics s' = topics s \<and> config s' = config s \<and> next_chan s' = next_chan s
    \<and> shutdown s' = shutdown s \<and> heap s' = heap s \<and> spawned s' = spawned s
    \<and> (\<forall>d. ch_closed (chans s' d) = ch_closed (chans s d) \<and> ch_cap (chans s' d) = ch_cap (chans s d))"
proof (induction msgs arbitrary: i s)
  case Nil
  then show ?case by simp
next
  case (Cons msg rest)
  show ?case
  proof (cases "select_send (pick i) s (MessageChan sub)")
    case SendCase
    obtain r1 s1 where cs: "chan_send (MessageChan sub) msg s = (r1, s1)" by fastforce
    note f = chan_send_frame [OF cs]
    show ?thesis
    proof (cases r1)
      case (Ok u)
      with Cons.prems SendCase cs have "run_replay pick (Suc i) sub rest s1 = (r, s')" by simp
      from Cons.IH [OF this] f show ?thesis by simp
    next
      case (Err e)
      with Cons.prems SendCase cs f show ?thesis by auto
    next
      case (Panicked p)
      with Cons.prems SendCase cs f show ?thesis by auto
    qed
  next
    case ShutdownCase
    with Cons.prems show ?thesis by auto
  next
    case DefaultCase
    with Cons.prems have "run_replay pick (Suc i) sub rest s = (r, s')" by simp
    from Cons.IH [OF this] show ?thesis .
  qed
qed

lemma run_goroutine_frame:
  assumes "run_goroutine pick g s = (r, s')"
  shows "topics s' = topics s \<and> config s' = config s \<and> next_chan s' = next_chan s
    \<and> shutdown s' = shutdown s \<and> heap s' = heap s \<and> spawned s' = spawned s
    \<and> (\<forall>d. ch_closed (chans s' d) = ch_closed (chans s d) \<and> ch_cap (chans s' d) = ch_cap (chans s d))"
proof (cases g)
  case (FanOut sub msg)
  with assms run_fanout_frame [of "pick 0" sub msg s r s'] show ?thesis
    by (simp add: run_goroutine_def)
next
  case (Replay sub msgs)
  with assms run_replay_frame [of pick 0 sub msgs s r s'] show ?thesis
    by (simp add: run_goroutine_def)
qed

lemma wf_schedule:
  assumes "wf s" "schedule pick k s = (r, s')"
  shows "wf s'"
proof (cases "k < length (spawned s)")
  case True
  let ?s0 = "s\<lparr>spawned := take k (spawned s) @ drop (Suc k) (spawned s)\<rparr>"
  from assms(2) True have "run_goroutine pick (spawned s ! k) ?s0 = (r, s')"
    by (simp add: schedule_def)
  from run_goroutine_frame [OF this] show ?thesis
    by (intro wf_cong [OF assms(1)]) simp_all
next
  case False
  with assms show ?thesis by (simp add: schedule_def)
qed

lemma wf_replay_step:
  assumes "wf s" "replay_step p k s = (r, s')"
  shows "wf s'"
proof (cases "k < length (spawned s)")
  case True
  show ?thesis
  proof (cases "spawned s ! k")
    case (FanOut sub msg)
    with assms True show ?thesis by (simp add: replay_step_def)
  next
    case (Replay sub msgs)
    show ?thesis
    proof (cases msgs)
      case Nil
      with assms True Replay show ?thesis by (simp add: replay_step_def)
    next
      case (Cons msg rest)
      show ?thesis
      proof (cases "select_send p s (MessageChan sub)")
        case SendCase
        obtain r1 s1 where cs: "chan_send (MessageChan sub) msg s = (r1, s1)" by fastforce
        note f = chan_send_frame [OF cs]
        from assms(2) True Replay Cons SendCase cs
        have "topics s' = topics s \<and> config s' = config s \<and> next_chan s' = next_chan s
          \<and> (\<forall>d. ch_closed (chans s' d) = ch_closed (chans s d))"
          using f by (cases r1) (auto simp add: replay_step_def)
        then show ?thesis by (intro wf_cong [OF assms(1)]) simp_all
      next
        case ShutdownCase
        with assms(2) True Replay Cons show ?thesis
          by (intro wf_cong [OF assms(1)]) (auto simp add: replay_step_def)
      next
        case DefaultCase
        with assms(2) True Replay Cons show ?thesis
          by (intro wf_cong [OF assms(1)]) (auto simp add: replay_step_def)
      qed
    qed
  qed
next
  case False
  with assms show ?thesis by (simp add: replay_step_def)
qed

lemma wf_recv:
  assumes "wf s" "chan_recv c s = (r, s')"
  shows "wf s'"
  using assms(2) by (intro wf_cong [OF assms(1)]) (auto simp add: chan_recv_def split: list.splits if_splits)

lemma wf_init: "wf (InitService cfg h)"
  by (simp add: wf_def InitService_def chan_unique_def subscriber_of_def)

lemma wf_start: "wf s \<Longrightarrow> Start now s = (r, s') \<Longrightarrow> wf s'"
  by (rule wf_cong [of s]) (auto simp add: Start_def)

lemma wf_stop: "wf s \<Longrightarrow> Stop s = (r, s') \<Longrightarrow> wf s'"
  by (rule wf_cong [of s]) (auto simp add: Stop_def split: if_splits)

lemma wf_write: "wf s \<Longrightarrow> wf (s\<lparr>heap := h\<rparr>)"
  by (rule wf_cong [of s]) auto


lemma topic_ok_cong:
  assumes "config s' = config s" "next_chan s' = next_chan s"
    and "\<And>c. ch_closed (chans s' c) = ch_closed (chans s c)"
  shows "topic_ok s' n t = topic_ok s n t"
  using assms by (simp add: topic_ok_def sub_ok_def)

lemma Add_needs_room:
  assumes "ring_holds C xs rb" "Add rb m = Inr rb'"
  shows "1 \<le> C"
proof (rule ccontr)
  assume "\<not> 1 \<le> C"
  then have "nat C = 0" by simp
  with assms(1) have "length (rb_buffer rb) = 0" by (simp add: ring_holds_def)
  with assms(2) show False by (simp add: Add_def split: if_splits)
qed

lemma wf_create:
  assumes w: "wf s" and c: "CreateTopic now name s = (Ok u, s')"
  shows "wf s'"
proof -
  from c have none: "map_of (topics s) name = None"
    by (auto simp add: CreateTopic_def split: option.splits)
  from c none obtain rb where rb: "NewRingBuffer (RingBufferSize (config s)) = Inr rb"
    by (auto simp add: CreateTopic_def split: sum.splits)
  let ?T = "\<lparr>Name = name, Subscribers = [], Messages = rb, CreatedAt = now\<rparr>"
  from c none rb have s': "s' = s\<lparr>topics := AList.update name ?T (topics s)\<rparr>"
    by (simp add: CreateTopic_def)
  from rb have C0: "0 \<le> RingBufferSize (config s)"
    by (simp add: NewRingBuffer_def split: if_splits)
  from ring_holds_new [OF C0] rb have "ring_holds (RingBufferSize (config s)) (map Some []) rb"
    by simp
  then have rh: "\<exists>xs. ring_holds (RingBufferSize (config s)) (map Some xs) rb" by (rule exI)
  have tn: "topic_ok s' name ?T"
    unfolding topic_ok_def using rh by (simp add: s')
  have d: "distinct (map fst (topics s'))"
    using w by (simp add: s' wf_def distinct_update)
  have ok: "topic_ok s' n t" if "map_of (topics s') n = Some t" for n t
  proof (cases "n = name")
    case True
    with that have "t = ?T" by (simp add: s' update_conv')
    with tn True show ?thesis by simp
  next
    case False
    with that have "map_of (topics s) n = Some t" by (simp add: s' update_conv')
    with w have "topic_ok s n t" by (simp add: wf_def)
    then show ?thesis by (simp add: s' topic_ok_def sub_ok_def)
  qed
  have so: "subscriber_of s' n c = subscriber_of s n c" for n c
    using none by (simp add: subscriber_of_def s' update_conv')
  have "chan_unique s'" using w unfolding wf_def chan_unique_def so by blast
  with d ok show ?thesis by (simp add: wf_def)
qed

lemma wf_publish:
  assumes w: "wf s" and p: "Publish now uuid topicName message s = (Ok u, s')"
  shows "wf s'"
proof -
  from p obtain topic where t: "map_of (topics s) topicName = Some topic"
    by (auto simp add: Publish_def split: option.splits)
  from p t obtain a where a: "message = Some a"
    by (auto simp add: Publish_def split: option.splits)
  from p t a obtain rb where rb: "Add (Messages topic) message = Inr rb"
    by (auto simp add: Publish_def Let_def split: sum.splits)
  from p t a rb have tp: "topics s' = AList.update topicName (topic\<lparr>Messages := rb\<rparr>) (topics s)"
    and cf: "config s' = config s" and nc: "next_chan s' = next_chan s" and ch: "chans s' = chans s"
    by (auto simp add: Publish_def Let_def)
  from w t have tok: "topic_ok s topicName topic" by (simp add: wf_def)
  then obtain xs where rh: "ring_holds (RingBufferSize (config s)) (map Some xs) (Messages topic)"
    by (auto simp add: topic_ok_def)
  from Add_needs_room [OF rh rb] have C: "1 \<le> RingBufferSize (config s)" .
  from Add_holds [OF C rh, of message] rb a
  have "ring_holds (RingBufferSize (config s)) (map Some (xs @ [a])) rb" by simp
  then have rh': "\<exists>xs. ring_holds (RingBufferSize (config s)) (map Some xs) rb" by (rule exI)
  have tn: "topic_ok s' topicName (topic\<lparr>Messages := rb\<rparr>)"
    using tok rh' unfolding topic_ok_def sub_ok_def cf nc ch by simp
  have d: "distinct (map fst (topics s'))"
    using w by (simp add: tp wf_def distinct_update)
  have ok: "topic_ok s' n t'" if "map_of (topics s') n = Some t'" for n t'
  proof (cases "n = topicName")
    case True
    with that have "t' = topic\<lparr>Messages := rb\<rparr>" by (simp add: tp update_conv')
    with tn True show ?thesis by simp
  next
    case False
    with that have "map_of (topics s) n = Some t'" by (simp add: tp update_conv')
    with w have "topic_ok s n t'" by (simp add: wf_def)
    then show ?thesis by (simp add: topic_ok_def sub_ok_def cf nc ch)
  qed
  have so: "subscriber_of s' n c = subscriber_of s n c" for n c
    using t by (simp add: subscriber_of_def tp update_conv')
  have "chan_unique s'" using w unfolding wf_def chan_unique_def so by blast
  with d ok show ?thesis by (simp add: wf_def)
qed


lemma wf_subscriber_of:
  assumes "wf s" "subscriber_of s n c = Some x"
  shows "sub_ok s n c x"
proof -
  from assms(2) obtain t where t: "map_of (topics s) n = Some t" and x: "map_of (Subscribers t) c = Some x"
    by (auto simp add: subscriber_of_def split: option.splits)
  from assms(1) t have "topic_ok s n t" by (simp add: wf_def)
  with x show ?thesis by (simp add: topic_ok_def)
qed

lemma Subscribe_Ok:
  assumes "Subscribe now topicName clientID lastN s = (Ok sub, s')"
  shows "\<exists>topic ch. map_of (topics s) topicName = Some topic
      \<and> map_of (Subscribers topic) clientID = None
      \<and> make_chan (ChannelBufferSize (config s)) = Inr ch
      \<and> sub = \<lparr>ClientID = clientID, TopicName = topicName, MessageChan = next_chan s, LastSeen = now\<rparr>
      \<and> topics s' = AList.update topicName
            (topic\<lparr>Subscribers := AList.update clientID sub (Subscribers topic)\<rparr>) (topics s)
      \<and> chans s' = (chans s)(next_chan s := ch)
      \<and> next_chan s' = Suc (next_chan s)
      \<and> config s' = config s \<and> heap s' = heap s \<and> shutdown s' = shutdown s
      \<and> (0 < lastN \<longrightarrow> (\<exists>h. GetLastN (Messages topic) lastN = Inr h
             \<and> spawned s' = spawned s @ [Replay sub h]))
      \<and> (\<not> 0 < lastN \<longrightarrow> spawned s' = spawned s)"
  using assms
  by (auto simp add: Subscribe_def Let_def split: option.splits sum.splits if_splits)

lemma wf_subscribe:
  assumes w: "wf s" and sb: "Subscribe now topicName clientID lastN s = (Ok sub, s')"
  shows "wf s'"
proof -
  from Subscribe_Ok [OF sb] obtain topic ch where
    t: "map_of (topics s) topicName = Some topic"
    and fresh: "map_of (Subscribers topic) clientID = None"
    and mk: "make_chan (ChannelBufferSize (config s)) = Inr ch"
    and sub: "sub = \<lparr>ClientID = clientID, TopicName = topicName, MessageChan = next_chan s, LastSeen = now\<rparr>"
    and tp: "topics s' = AList.update topicName
            (topic\<lparr>Subscribers := AList.update clientID sub (Subscribers topic)\<rparr>) (topics s)"
    and ch: "chans s' = (chans s)(next_chan s := ch)"
    and nc: "next_chan s' = Suc (next_chan s)"
    and cf: "config s' = config s"
    by blast
  let ?T = "topic\<lparr>Subscribers := AList.update clientID sub (Subscribers topic)\<rparr>"
  from mk have open_ch: "\<not> ch_closed ch" by (auto simp add: make_chan_def split: if_splits)
  have keep: "sub_ok s' n c x" if "sub_ok s n c x" for n c x
    using that by (auto simp add: sub_ok_def ch nc)
  have new: "sub_ok s' topicName clientID sub"
    using open_ch by (simp add: sub_ok_def sub ch nc)
  from w t have tok: "topic_ok s topicName topic" by (simp add: wf_def)
  have tn: "topic_ok s' topicName ?T"
    unfolding topic_ok_def
  proof (intro conjI allI impI)
    show "Name ?T = topicName" using tok by (simp add: topic_ok_def)
    show "distinct (map fst (Subscribers ?T))" using tok by (simp add: topic_ok_def distinct_update)
    show "\<exists>xs. ring_holds (RingBufferSize (config s')) (map Some xs) (Messages ?T)"
      using tok by (simp add: topic_ok_def cf)
  next
    fix c x assume "map_of (Subscribers ?T) c = Some x"
    then have "(c = clientID \<and> x = sub) \<or> map_of (Subscribers topic) c = Some x"
      by (auto simp add: update_conv' split: if_splits)
    then show "sub_ok s' topicName c x"
      using new keep tok by (auto simp add: topic_ok_def)
  qed
  have d: "distinct (map fst (topics s'))"
    using w by (simp add: tp wf_def distinct_update)
  have ok: "topic_ok s' n t'" if "map_of (topics s') n = Some t'" for n t'
  proof (cases "n = topicName")
    case True
    with that have "t' = ?T" by (simp add: tp update_conv')
    with tn True show ?thesis by simp
  next
    case False
    with that have "map_of (topics s) n = Some t'" by (simp add: tp update_conv')
    with w have "topic_ok s n t'" by (simp add: wf_def)
    then show ?thesis using keep by (simp add: topic_ok_def cf)
  qed
  have so: "subscriber_of s' n c =
      (if n = topicName \<and> c = clientID then Some sub else subscriber_of s n c)" for n c
    using t by (simp add: subscriber_of_def tp update_conv')
  have old: "MessageChan x < next_chan s" if "subscriber_of s n c = Some x" for n c x
    using wf_subscriber_of [OF w that] by (simp add: sub_ok_def)
  have mc: "MessageChan sub = next_chan s" by (simp add: sub)
  have "chan_unique s'"
    unfolding chan_unique_def so
  proof (intro allI impI)
    fix n1 c1 s1 n2 c2 s2
    assume a: "(if n1 = topicName \<and> c1 = clientID then Some sub else subscriber_of s n1 c1) = Some s1 \<and>
       (if n2 = topicName \<and> c2 = clientID then Some sub else subscriber_of s n2 c2) = Some s2 \<and>
       MessageChan s1 = MessageChan s2"
    show "n1 = n2 \<and> c1 = c2"
    proof (cases "n1 = topicName \<and> c1 = clientID")
      case T1: True
      show ?thesis
      proof (cases "n2 = topicName \<and> c2 = clientID")
        case True with T1 show ?thesis by simp
      next
        case False
        with a T1 have "subscriber_of s n2 c2 = Some s2" "MessageChan s2 = next_chan s"
          using mc by auto
        with old [of n2 c2 s2] show ?thesis by simp
      qed
    next
      case F1: False
      show ?thesis
      proof (cases "n2 = topicName \<and> c2 = clientID")
        case True
        with a F1 have "subscriber_of s n1 c1 = Some s1" "MessageChan s1 = next_chan s"
          using mc by auto
        with old [of n1 c1 s1] show ?thesis by simp
      next
        case False
        with a F1 have "subscriber_of s n1 c1 = Some s1" "subscriber_of s n2 c2 = Some s2"
          "MessageChan s1 = MessageChan s2" by auto
        with w show ?thesis unfolding wf_def chan_unique_def by blast
      qed
    qed
  qed
  with d ok show ?thesis by (simp add: wf_def)
qed


lemma close_chan_Inr:
  "close_chan c cs = Inr cs' \<longleftrightarrow> \<not> ch_closed (cs c) \<and> cs' = cs(c := (cs c)\<lparr>ch_closed := True\<rparr>)"
  by (auto simp add: close_chan_def)

lemma close_all_result:
  "close_all subs cs = Inr cs' \<Longrightarrow>
   cs' d = (if d \<in> MessageChan ` set subs then (cs d)\<lparr>ch_closed := True\<rparr> else cs d)"
proof (induction subs arbitrary: cs)
  case Nil
  then show ?case by simp
next
  case (Cons x xs)
  from Cons.prems obtain cs1 where c1: "close_chan (MessageChan x) cs = Inr cs1"
    and r: "close_all xs cs1 = Inr cs'"
    by (auto split: sum.splits)
  from c1 have cs1: "cs1 = cs(MessageChan x := (cs (MessageChan x))\<lparr>ch_closed := True\<rparr>)"
    by (simp add: close_chan_Inr)
  from Cons.IH [OF r] show ?case by (auto simp add: cs1)
qed

lemma close_all_total:
  "distinct (map MessageChan subs) \<Longrightarrow> \<forall>x \<in> set subs. \<not> ch_closed (cs (MessageChan x)) \<Longrightarrow>
   \<exists>cs'. close_all subs cs = Inr cs'"
proof (induction subs arbitrary: cs)
  case Nil
  then show ?case by simp
next
  case (Cons x xs)
  let ?cs1 = "cs(MessageChan x := (cs (MessageChan x))\<lparr>ch_closed := True\<rparr>)"
  from Cons.prems have c1: "close_chan (MessageChan x) cs = Inr ?cs1"
    by (simp add: close_chan_Inr)
  have op: "\<forall>y \<in> set xs. \<not> ch_closed (?cs1 (MessageChan y))"
    using Cons.prems by (auto simp add: image_iff)
  from Cons.prems have dx: "distinct (map MessageChan xs)" by simp
  from Cons.IH [OF dx op] obtain cs' where "close_all xs ?cs1 = Inr cs'" by blast
  with c1 show ?case by simp
qed

lemma Unsubscribe_Ok:
  assumes "Unsubscribe topicName clientID s = (Ok u, s')"
  shows "\<exists>topic subscriber. map_of (topics s) topicName = Some topic
      \<and> map_of (Subscribers topic) clientID = Some subscriber
      \<and> \<not> ch_closed (chans s (MessageChan subscriber))
      \<and> s' = s\<lparr>chans := (chans s)(MessageChan subscriber :=
                   (chans s (MessageChan subscriber))\<lparr>ch_closed := True\<rparr>),
                topics := AList.update topicName
                   (topic\<lparr>Subscribers := AList.delete clientID (Subscribers topic)\<rparr>) (topics s)\<rparr>"
  using assms
  by (auto simp add: Unsubscribe_def close_chan_def split: option.splits sum.splits if_splits)

lemma wf_unsubscribe:
  assumes w: "wf s" and un: "Unsubscribe topicName clientID s = (Ok u, s')"
  shows "wf s'"
proof -
  from Unsubscribe_Ok [OF un] obtain topic subscriber where
    t: "map_of (topics s) topicName = Some topic"
    and sb: "map_of (Subscribers topic) clientID = Some subscriber"
    and s': "s' = s\<lparr>chans := (chans s)(MessageChan subscriber :=
                   (chans s (MessageChan subscriber))\<lparr>ch_closed := True\<rparr>),
                topics := AList.update topicName
                   (topic\<lparr>Subscribers := AList.delete clientID (Subscribers topic)\<rparr>) (topics s)\<rparr>"
    by blast
  let ?T = "topic\<lparr>Subscribers := AList.delete clientID (Subscribers topic)\<rparr>"
  have gone: "subscriber_of s topicName clientID = Some subscriber"
    using t sb by (simp add: subscriber_of_def)
  have so: "subscriber_of s' n c =
      (if n = topicName \<and> c = clientID then None else subscriber_of s n c)" for n c
    using t by (simp add: subscriber_of_def s' update_conv' delete_conv')
  have other: "MessageChan x \<noteq> MessageChan subscriber"
    if "subscriber_of s n c = Some x" "\<not> (n = topicName \<and> c = clientID)" for n c x
    using w that gone unfolding wf_def chan_unique_def by blast
  have keep: "sub_ok s' n c x"
    if "subscriber_of s n c = Some x" "\<not> (n = topicName \<and> c = clientID)" for n c x
    using wf_subscriber_of [OF w that(1)] other [OF that] by (simp add: sub_ok_def s')
  from w t have tok: "topic_ok s topicName topic" by (simp add: wf_def)
  have d: "distinct (map fst (topics s'))"
    using w by (simp add: s' wf_def distinct_update)
  have ok: "topic_ok s' n t'" if lk: "map_of (topics s') n = Some t'" for n t'
  proof -
    obtain t0 where t0: "map_of (topics s) n = Some t0" and nm: "Name t' = Name t0"
      and rg: "Messages t' = Messages t0"
      and sbs: "Subscribers t' = (if n = topicName then AList.delete clientID (Subscribers t0) else Subscribers t0)"
      using lk t by (cases "n = topicName") (auto simp add: s' update_conv')
    from w t0 have ok0: "topic_ok s n t0" by (simp add: wf_def)
    show ?thesis
      unfolding topic_ok_def
    proof (intro conjI allI impI)
      show "Name t' = n" using ok0 nm by (simp add: topic_ok_def)
      show "distinct (map fst (Subscribers t'))"
        using ok0 sbs by (simp add: topic_ok_def distinct_delete)
      show "\<exists>xs. ring_holds (RingBufferSize (config s')) (map Some xs) (Messages t')"
        using ok0 rg by (simp add: topic_ok_def s')
    next
      fix c x assume "map_of (Subscribers t') c = Some x"
      then have "subscriber_of s' n c = Some x" using lk by (simp add: subscriber_of_def)
      then have "subscriber_of s n c = Some x" "\<not> (n = topicName \<and> c = clientID)"
        by (auto simp add: so split: if_splits)
      then show "sub_ok s' n c x" by (rule keep)
    qed
  qed
  have "chan_unique s'"
    using w unfolding wf_def chan_unique_def so by (auto split: if_splits)
  with d ok show ?thesis by (simp add: wf_def)
qed

lemma topic_chans_distinct:
  assumes w: "wf s" and t: "map_of (topics s) name = Some topic"
  shows "distinct (map MessageChan (map snd (Subscribers topic)))"
proof -
  from w t have tok: "topic_ok s name topic" by (simp add: wf_def)
  then have dk: "distinct (map fst (Subscribers topic))" by (simp add: topic_ok_def)
  then have dl: "distinct (Subscribers topic)" by (simp add: distinct_map)
  have "inj_on (MessageChan \<circ> snd) (set (Subscribers topic))"
  proof (rule inj_onI)
    fix p q assume p: "p \<in> set (Subscribers topic)" and q: "q \<in> set (Subscribers topic)"
      and e: "(MessageChan \<circ> snd) p = (MessageChan \<circ> snd) q"
    from p dk have p': "map_of (Subscribers topic) (fst p) = Some (snd p)" by simp
    from q dk have q': "map_of (Subscribers topic) (fst q) = Some (snd q)" by simp
    from p' q' t have "subscriber_of s name (fst p) = Some (snd p)" "subscriber_of s name (fst q) = Some (snd q)"
      by (simp_all add: subscriber_of_def)
    with w e have "fst p = fst q" unfolding wf_def chan_unique_def by (metis comp_apply)
    with p' q' show "p = q" by (simp add: prod_eq_iff)
  qed
  with dl show ?thesis by (simp add: distinct_map)
qed

lemma topic_chans_open:
  assumes w: "wf s" and t: "map_of (topics s) name = Some topic"
  shows "\<forall>x \<in> set (map snd (Subscribers topic)). \<not> ch_closed (chans s (MessageChan x))"
proof
  fix x assume "x \<in> set (map snd (Subscribers topic))"
  then obtain c where c: "(c, x) \<in> set (Subscribers topic)" by auto
  from w t have tok: "topic_ok s name topic" by (simp add: wf_def)
  then have "distinct (map fst (Subscribers topic))" by (simp add: topic_ok_def)
  with c have "map_of (Subscribers topic) c = Some x" by simp
  with tok show "\<not> ch_closed (chans s (MessageChan x))" by (simp add: topic_ok_def sub_ok_def)
qed

lemma DeleteTopic_Ok:
  assumes "DeleteTopic name s = (Ok u, s')"
  shows "\<exists>topic cs. map_of (topics s) name = Some topic
      \<and> close_all (map snd (Subscribers topic)) (chans s) = Inr cs
      \<and> s' = s\<lparr>chans := cs, topics := AList.delete name (topics s)\<rparr>"
  using assms by (auto simp add: DeleteTopic_def split: option.splits sum.splits)

lemma wf_delete:
  assumes w: "wf s" and de: "DeleteTopic name s = (Ok u, s')"
  shows "wf s'"
proof -
  from DeleteTopic_Ok [OF de] obtain topic cs where
    t: "map_of (topics s) name = Some topic"
    and cl: "close_all (map snd (Subscribers topic)) (chans s) = Inr cs"
    and s': "s' = s\<lparr>chans := cs, topics := AList.delete name (topics s)\<rparr>"
    by blast
  note cs = close_all_result [OF cl]
  have so: "subscriber_of s' n c = (if n = name then None else subscriber_of s n c)" for n c
    by (simp add: subscriber_of_def s' delete_conv')
  have keep: "sub_ok s' n c x" if x: "subscriber_of s n c = Some x" and n: "n \<noteq> name" for n c x
  proof -
    have "MessageChan x \<notin> MessageChan ` set (map snd (Subscribers topic))"
    proof
      assume "MessageChan x \<in> MessageChan ` set (map snd (Subscribers topic))"
      then obtain c' y where y: "(c', y) \<in> set (Subscribers topic)" and e: "MessageChan x = MessageChan y"
        by auto
      from w t have "distinct (map fst (Subscribers topic))" by (simp add: wf_def topic_ok_def)
      with y have "map_of (Subscribers topic) c' = Some y" by simp
      with t have "subscriber_of s name c' = Some y" by (simp add: subscriber_of_def)
      with w x e have "n = name" unfolding wf_def chan_unique_def by blast
      with n show False by simp
    qed
    then have "cs (MessageChan x) = chans s (MessageChan x)" by (simp add: cs)
    with wf_subscriber_of [OF w x] show ?thesis by (simp add: sub_ok_def s')
  qed
  have d: "distinct (map fst (topics s'))"
    using w by (simp add: s' wf_def distinct_delete)
  have ok: "topic_ok s' n t'" if lk: "map_of (topics s') n = Some t'" for n t'
  proof -
    from lk have n: "n \<noteq> name" and t0: "map_of (topics s) n = Some t'"
      by (auto simp add: s' delete_conv' split: if_splits)
    from w t0 have ok0: "topic_ok s n t'" by (simp add: wf_def)
    show ?thesis
      unfolding topic_ok_def
    proof (intro conjI allI impI)
      show "Name t' = n" using ok0 by (simp add: topic_ok_def)
      show "distinct (map fst (Subscribers t'))" using ok0 by (simp add: topic_ok_def)
      show "\<exists>xs. ring_holds (RingBufferSize (config s')) (map Some xs) (Messages t')"
        using ok0 by (simp add: topic_ok_def s')
    next
      fix c x assume "map_of (Subscribers t') c = Some x"
      then have "subscriber_of s n c = Some x" using t0 by (simp add: subscriber_of_def)
      then show "sub_ok s' n c x" using n by (rule keep)
    qed
  qed
  have "chan_unique s'"
    using w unfolding wf_def chan_unique_def so by (auto split: if_splits)
  with d ok show ?thesis by (simp add: wf_def)
qed

lemma reachable_wf: "reachable s \<Longrightarrow> wf s"
proof (induction rule: reachable.induct)
  case (r_init cfg h)
  show ?case by (rule wf_init)
next
  case (r_write s a m)
  then show ?case by (simp add: wf_write)
qed (auto intro: wf_start wf_stop wf_create wf_delete wf_subscribe wf_unsubscribe wf_publish
       wf_schedule wf_replay_step wf_recv)

section \<open>The worked run, evaluated\<close>

lemma demo_init_fields:
  "topics demo_init = []" "config demo_init = small_config" "shutdown demo_init = False"
  "next_chan demo_init = 0" "spawned demo_init = []" "heap demo_init = blank_heap"
  by (simp_all add: demo_init_def InitService_def)

lemma demo_topic_step:
  "CreateTopic 10 ''orders'' demo_init = (Ok (), demo_topic)"
  by (simp add: demo_topic_def CreateTopic_def demo_init_fields small_config_def NewRingBuffer_def)

lemma demo_topic_fields:
  "topics demo_topic = [(''orders'', \<lparr>Name = ''orders'', Subscribers = [],
      Messages = \<lparr>rb_buffer = [None, None], rb_size = 2, rb_head = 0, rb_tail = 0, rb_count = 0\<rparr>,
      CreatedAt = 10\<rparr>)]"
  "config demo_topic = small_config" "shutdown demo_topic = False"
  "next_chan demo_topic = 0" "spawned demo_topic = []" "heap demo_topic = blank_heap"
  by (simp_all add: demo_topic_def CreateTopic_def demo_init_fields small_config_def
        NewRingBuffer_def numeral_2_eq_2)

lemma demo_subscribed_step:
  "Subscribe 11 ''orders'' ''c1'' 0 demo_topic =
     (Ok \<lparr>ClientID = ''c1'', TopicName = ''orders'', MessageChan = 0, LastSeen = 11\<rparr>, demo_subscribed)"
  by (simp add: demo_subscribed_def Subscribe_def demo_topic_fields small_config_def make_chan_def Let_def)

lemma demo_subscribed_fields:
  "topics demo_subscribed = [(''orders'', \<lparr>Name = ''orders'',
      Subscribers = [(''c1'', \<lparr>ClientID = ''c1'', TopicName = ''orders'', MessageChan = 0, LastSeen = 11\<rparr>)],
      Messages = \<lparr>rb_buffer = [None, None], rb_size = 2, rb_head = 0, rb_tail = 0, rb_count = 0\<rparr>,
      CreatedAt = 10\<rparr>)]"
  "config demo_subscribed = small_config" "shutdown demo_subscribed = False"
  "next_chan demo_subscribed = 1" "spawned demo_subscribed = []" "heap demo_subscribed = blank_heap"
  "chans demo_subscribed 0 = \<lparr>ch_buf = [], ch_cap = 2, ch_closed = False\<rparr>"
  by (simp_all add: demo_subscribed_def Subscribe_def demo_topic_fields small_config_def make_chan_def Let_def)

lemma demo_published_step:
  "Publish 12 ''uuid-1'' ''orders'' (Some 7) demo_subscribed = (Ok (), demo_published)"
  by (simp add: demo_published_def Publish_def demo_subscribed_fields Add_def smod_nonneg Let_def)

lemma demo_published_fields:
  "topics demo_published = [(''orders'', \<lparr>Name = ''orders'',
      Subscribers = [(''c1'', \<lparr>ClientID = ''c1'', TopicName = ''orders'', MessageChan = 0, LastSeen = 11\<rparr>)],
      Messages = \<lparr>rb_buffer = [Some 7, None], rb_size = 2, rb_head = 0, rb_tail = 1, rb_count = 1\<rparr>,
      CreatedAt = 10\<rparr>)]"
  "config demo_published = small_config" "shutdown demo_published = False"
  "next_chan demo_published = 1"
  "spawned demo_published =
     [FanOut \<lparr>ClientID = ''c1'', TopicName = ''orders'', MessageChan = 0, LastSeen = 11\<rparr> (Some 7)]"
  "heap demo_published 7 = \<lparr>msg_ID = ''uuid-1'', msg_Payload = [], msg_Topic = ''orders'', msg_Timestamp = 12\<rparr>"
  "chans demo_published 0 = \<lparr>ch_buf = [], ch_cap = 2, ch_closed = False\<rparr>"
  by (simp_all add: demo_published_def Publish_def demo_subscribed_fields Add_def smod_nonneg
        stamp_def blank_heap_def Let_def)

lemma demo_stopped_step: "Stop demo_published = (Ok (), demo_stopped)"
  by (simp add: demo_stopped_def Stop_def demo_published_fields)

lemma demo_stopped_fields:
  "topics demo_stopped = topics demo_published"
  "config demo_stopped = small_config" "shutdown demo_stopped = True"
  "next_chan demo_stopped = 1"
  "spawned demo_stopped = spawned demo_published"
  "heap demo_stopped = heap demo_published"
  "chans demo_stopped = chans demo_published"
  by (simp_all add: demo_stopped_def Stop_def demo_published_fields)

lemma demo_reachable:
  "reachable demo_init" "reachable demo_topic" "reachable demo_subscribed"
  "reachable demo_published" "reachable demo_stopped"
proof -
  show 0: "reachable demo_init" unfolding demo_init_def by (rule r_init)
  show 1: "reachable demo_topic" by (rule r_create [OF 0 demo_topic_step])
  show 2: "reachable demo_subscribed" by (rule r_subscribe [OF 1 demo_subscribed_step])
  show 3: "reachable demo_published" by (rule r_publish [OF 2 demo_published_step])
  show "reachable demo_stopped" by (rule r_stop [OF 3 demo_stopped_step])
qed

lemma demo_two_topics_step: "CreateTopic 13 ''audit'' demo_published = (Ok (), demo_two_topics)"
  by (simp add: demo_two_topics_def CreateTopic_def demo_published_fields small_config_def
        NewRingBuffer_def)

lemma demo_two_topics_fields:
  "topics demo_two_topics = [(''orders'', \<lparr>Name = ''orders'',
      Subscribers = [(''c1'', \<lparr>ClientID = ''c1'', TopicName = ''orders'', MessageChan = 0, LastSeen = 11\<rparr>)],
      Messages = \<lparr>rb_buffer = [Some 7, None], rb_size = 2, rb_head = 0, rb_tail = 1, rb_count = 1\<rparr>,
      CreatedAt = 10\<rparr>),
     (''audit'', \<lparr>Name = ''audit'', Subscribers = [],
      Messages = \<lparr>rb_buffer = [None, None], rb_size = 2, rb_head = 0, rb_tail = 0, rb_count = 0\<rparr>,
      CreatedAt = 13\<rparr>)]"
  "config demo_two_topics = small_config"
  by (simp_all add: demo_two_topics_def CreateTopic_def demo_published_fields small_config_def
        NewRingBuffer_def numeral_2_eq_2)

lemma demo_two_topics_reachable: "reachable demo_two_topics"
  by (rule r_create [OF demo_reachable(4) demo_two_topics_step])

lemma demo_second_step: "Publish 13 ''uuid-2'' ''orders'' (Some 8) demo_published = (Ok (), demo_second)"
  by (simp add: demo_second_def Publish_def demo_published_fields Add_def smod_nonneg Let_def)

lemma demo_second_fields:
  "topics demo_second = [(''orders'', \<lparr>Name = ''orders'',
      Subscribers = [(''c1'', \<lparr>ClientID = ''c1'', TopicName = ''orders'', MessageChan = 0, LastSeen = 11\<rparr>)],
      Messages = \<lparr>rb_buffer = [Some 7, Some 8], rb_size = 2, rb_head = 0, rb_tail = 0, rb_count = 2\<rparr>,
      CreatedAt = 10\<rparr>)]"
  "config demo_second = small_config" "shutdown demo_second = False"
  "next_chan demo_second = 1"
  "spawned demo_second =
     [FanOut \<lparr>ClientID = ''c1'', TopicName = ''orders'', MessageChan = 0, LastSeen = 11\<rparr> (Some 7),
      FanOut \<lparr>ClientID = ''c1'', TopicName = ''orders'', MessageChan = 0, LastSeen = 11\<rparr> (Some 8)]"
  "chans demo_second 0 = \<lparr>ch_buf = [], ch_cap = 2, ch_closed = False\<rparr>"
  by (simp_all add: demo_second_def Publish_def demo_published_fields Add_def smod_nonneg Let_def)

lemma demo_third_step: "Publish 14 ''uuid-3'' ''orders'' (Some 9) demo_second = (Ok (), demo_third)"
  by (simp add: demo_third_def Publish_def demo_second_fields Add_def smod_nonneg Let_def)

lemma demo_third_fields:
  "shutdown demo_third = False"
  "spawned demo_third =
     [FanOut \<lparr>ClientID = ''c1'', TopicName = ''orders'', MessageChan = 0, LastSeen = 11\<rparr> (Some 7),
      FanOut \<lparr>ClientID = ''c1'', TopicName = ''orders'', MessageChan = 0, LastSeen = 11\<rparr> (Some 8),
      FanOut \<lparr>ClientID = ''c1'', TopicName = ''orders'', MessageChan = 0, LastSeen = 11\<rparr> (Some 9)]"
  "chans demo_third 0 = \<lparr>ch_buf = [], ch_cap = 2, ch_closed = False\<rparr>"
  by (simp_all add: demo_third_def Publish_def demo_second_fields Add_def smod_nonneg Let_def)

lemma demo_second_reachable: "reachable demo_second" "reachable demo_third"
proof -
  show 1: "reachable demo_second" by (rule r_publish [OF demo_reachable(4) demo_second_step])
  show "reachable demo_third" by (rule r_publish [OF 1 demo_third_step])
qed


section \<open>What the service calls do in a well-formed state\<close>

lemma Publish_existing:
  assumes w: "wf s" and C: "1 \<le> RingBufferSize (config s)"
    and t: "map_of (topics s) t = Some topic"
  shows "\<exists>rb xs. ring_holds (RingBufferSize (config s)) (map Some xs) (Messages topic)
      \<and> Add (Messages topic) (Some a) = Inr rb
      \<and> ring_holds (RingBufferSize (config s)) (map Some (xs @ [a])) rb
      \<and> Publish now uuid t (Some a) s =
          (Ok (), s\<lparr>heap := (heap s)(a := stamp now uuid t (heap s a)),
                    topics := AList.update t (topic\<lparr>Messages := rb\<rparr>) (topics s),
                    spawned := spawned s @ map (\<lambda>subscriber. FanOut subscriber (Some a))
                                             (map snd (Subscribers topic))\<rparr>)"
proof -
  from w t have "topic_ok s t topic" by (simp add: wf_def)
  then obtain xs where rh: "ring_holds (RingBufferSize (config s)) (map Some xs) (Messages topic)"
    by (auto simp add: topic_ok_def)
  from Add_holds [OF C rh, of "Some a"] obtain rb where
    a: "Add (Messages topic) (Some a) = Inr rb"
    and rh': "ring_holds (RingBufferSize (config s)) (map Some (xs @ [a])) rb"
    by auto
  have "Publish now uuid t (Some a) s =
          (Ok (), s\<lparr>heap := (heap s)(a := stamp now uuid t (heap s a)),
                    topics := AList.update t (topic\<lparr>Messages := rb\<rparr>) (topics s),
                    spawned := spawned s @ map (\<lambda>subscriber. FanOut subscriber (Some a))
                                             (map snd (Subscribers topic))\<rparr>)"
    by (simp add: Publish_def t a Let_def)
  with rh a rh' show ?thesis by blast
qed

lemma Publish_missing:
  assumes "map_of (topics s) t = None"
  shows "Publish now uuid t m s = (Err (topic_not_found t), s)"
  using assms by (simp add: Publish_def)

lemma filter_key_le_one:
  "distinct (map fst xs) \<Longrightarrow> length (filter (\<lambda>p. fst p = c) xs) \<le> 1"
proof (induction xs)
  case Nil
  then show ?case by simp
next
  case (Cons p xs)
  show ?case
  proof (cases "fst p = c")
    case True
    with Cons.prems have "\<forall>q \<in> set xs. fst q \<noteq> c" by (auto simp add: image_iff)
    then have "filter (\<lambda>p. fst p = c) xs = []" by (simp add: filter_empty_conv)
    with True show ?thesis by simp
  next
    case False
    with Cons show ?thesis by simp
  qed
qed

lemma wf_entry:
  assumes w: "wf s" and t: "map_of (topics s) T = Some topic" and p: "(k, sub) \<in> set (Subscribers topic)"
  shows "map_of (Subscribers topic) k = Some sub \<and> sub_ok s T k sub"
proof -
  from w t have tok: "topic_ok s T topic" by (simp add: wf_def)
  then have "distinct (map fst (Subscribers topic))" by (simp add: topic_ok_def)
  with p have m: "map_of (Subscribers topic) k = Some sub" by simp
  with tok show ?thesis by (simp add: topic_ok_def)
qed

subsection \<open>The goroutines\<close>

lemma run_fanout_room:
  assumes "\<not> ch_closed (chans s (MessageChan sub))"
    and "length (ch_buf (chans s (MessageChan sub))) < ch_cap (chans s (MessageChan sub))"
    and "shutdown s \<longrightarrow> \<not> pick"
  shows "run_fanout pick sub msg s =
     (Ok (), s\<lparr>chans := (chans s)(MessageChan sub :=
        (chans s (MessageChan sub))\<lparr>ch_buf := ch_buf (chans s (MessageChan sub)) @ [msg]\<rparr>)\<rparr>)"
  using assms by (auto simp add: run_fanout_def select_send_def chan_send_def Let_def)

lemma run_fanout_full:
  assumes "\<not> ch_closed (chans s (MessageChan sub))"
    and "\<not> length (ch_buf (chans s (MessageChan sub))) < ch_cap (chans s (MessageChan sub))"
  shows "run_fanout pick sub msg s = (Ok (), s)"
  using assms by (auto simp add: run_fanout_def select_send_def Let_def)

lemma run_fanout_shutdown:
  assumes "shutdown s" and "pick"
  shows "run_fanout pick sub msg s = (Ok (), s)"
  using assms by (auto simp add: run_fanout_def select_send_def Let_def)

lemma run_fanout_cases:
  assumes "\<not> ch_closed (chans s (MessageChan sub))"
  shows "\<exists>s'. run_fanout pick sub msg s = (Ok (), s')
     \<and> topics s' = topics s \<and> shutdown s' = shutdown s
     \<and> (\<forall>d. d \<noteq> MessageChan sub \<longrightarrow> chans s' d = chans s d)
     \<and> ch_closed (chans s' (MessageChan sub)) = ch_closed (chans s (MessageChan sub))
     \<and> ch_cap (chans s' (MessageChan sub)) = ch_cap (chans s (MessageChan sub))
     \<and> ch_buf (chans s' (MessageChan sub)) =
         (if length (ch_buf (chans s (MessageChan sub))) < ch_cap (chans s (MessageChan sub))
             \<and> \<not> (shutdown s \<and> pick)
          then ch_buf (chans s (MessageChan sub)) @ [msg]
          else ch_buf (chans s (MessageChan sub)))"
proof (cases "length (ch_buf (chans s (MessageChan sub))) < ch_cap (chans s (MessageChan sub))")
  case room: True
  show ?thesis
  proof (cases "shutdown s \<and> pick")
    case True
    then show ?thesis using run_fanout_shutdown [of s pick sub msg] by simp
  next
    case False
    then have "shutdown s \<longrightarrow> \<not> pick" by simp
    from run_fanout_room [OF assms room this, of msg] room False show ?thesis by simp
  qed
next
  case False
  from run_fanout_full [OF assms False, of pick msg] False show ?thesis by simp
qed

lemma run_all_fanout:
  assumes "distinct (map MessageChan subs)"
    and "\<forall>sub \<in> set subs. \<not> ch_closed (chans s (MessageChan sub))"
  shows "\<exists>s'. run_all picks k (map (\<lambda>sub. FanOut sub msg) subs) s = (Ok (), s')
     \<and> topics s' = topics s \<and> shutdown s' = shutdown s
     \<and> (\<forall>d. d \<notin> MessageChan ` set subs \<longrightarrow> chans s' d = chans s d)
     \<and> (\<forall>sub \<in> set subs.
           (\<exists>pick. ch_buf (chans s' (MessageChan sub)) =
             (if length (ch_buf (chans s (MessageChan sub))) < ch_cap (chans s (MessageChan sub))
                 \<and> \<not> (shutdown s \<and> pick)
              then ch_buf (chans s (MessageChan sub)) @ [msg]
              else ch_buf (chans s (MessageChan sub)))))"
  using assms
proof (induction subs arbitrary: s k)
  case Nil
  then show ?case by simp
next
  case (Cons x xs)
  from Cons.prems have opx: "\<not> ch_closed (chans s (MessageChan x))" by simp
  from run_fanout_cases [OF opx, of "picks k 0" msg] obtain s1 where
    r1: "run_fanout (picks k 0) x msg s = (Ok (), s1)"
    and tp1: "topics s1 = topics s" and sh1: "shutdown s1 = shutdown s"
    and oth1: "\<And>d. d \<noteq> MessageChan x \<Longrightarrow> chans s1 d = chans s d"
    and cl1: "ch_closed (chans s1 (MessageChan x)) = ch_closed (chans s (MessageChan x))"
    and buf1: "ch_buf (chans s1 (MessageChan x)) =
         (if length (ch_buf (chans s (MessageChan x))) < ch_cap (chans s (MessageChan x))
             \<and> \<not> (shutdown s \<and> picks k 0)
          then ch_buf (chans s (MessageChan x)) @ [msg]
          else ch_buf (chans s (MessageChan x)))"
    by blast
  from Cons.prems have dx: "distinct (map MessageChan xs)"
    and nx: "MessageChan x \<notin> MessageChan ` set xs" by simp_all
  have same: "chans s1 (MessageChan y) = chans s (MessageChan y)" if "y \<in> set xs" for y
  proof -
    from nx that have "MessageChan y \<noteq> MessageChan x" by (auto simp add: image_iff)
    then show ?thesis by (rule oth1)
  qed
  have op1: "\<forall>sub \<in> set xs. \<not> ch_closed (chans s1 (MessageChan sub))"
    using Cons.prems(2) same by simp
  from Cons.IH [OF dx op1, of "Suc k"] obtain s' where
    r: "run_all picks (Suc k) (map (\<lambda>sub. FanOut sub msg) xs) s1 = (Ok (), s')"
    and tp: "topics s' = topics s1" and sh: "shutdown s' = shutdown s1"
    and oth: "\<And>d. d \<notin> MessageChan ` set xs \<Longrightarrow> chans s' d = chans s1 d"
    and bufs: "\<And>sub. sub \<in> set xs \<Longrightarrow>
           \<exists>pick. ch_buf (chans s' (MessageChan sub)) =
             (if length (ch_buf (chans s1 (MessageChan sub))) < ch_cap (chans s1 (MessageChan sub))
                 \<and> \<not> (shutdown s1 \<and> pick)
              then ch_buf (chans s1 (MessageChan sub)) @ [msg]
              else ch_buf (chans s1 (MessageChan sub)))"
    by blast
  have run: "run_all picks k (map (\<lambda>sub. FanOut sub msg) (x # xs)) s = (Ok (), s')"
    using r1 r by (simp add: run_goroutine_def)
  have o: "chans s' d = chans s d" if "d \<notin> MessageChan ` set (x # xs)" for d
    using that oth [of d] oth1 [of d] by simp
  have b: "\<exists>pick. ch_buf (chans s' (MessageChan sub)) =
             (if length (ch_buf (chans s (MessageChan sub))) < ch_cap (chans s (MessageChan sub))
                 \<and> \<not> (shutdown s \<and> pick)
              then ch_buf (chans s (MessageChan sub)) @ [msg]
              else ch_buf (chans s (MessageChan sub)))"
    if "sub \<in> set (x # xs)" for sub
  proof (cases "sub \<in> set xs")
    case True
    from bufs [OF True] show ?thesis unfolding same [OF True] sh1 .
  next
    case False
    with that have e: "sub = x" by simp
    have "chans s' (MessageChan x) = chans s1 (MessageChan x)" using oth [OF nx] .
    with buf1 show ?thesis unfolding e by (intro exI [of _ "picks k 0"]) simp
  qed
  from run tp tp1 sh sh1 o b show ?case by auto
qed


lemma run_replay_room:
  assumes "\<not> shutdown s" and "\<not> ch_closed (chans s (MessageChan sub))"
    and "length (ch_buf (chans s (MessageChan sub))) + length msgs \<le> ch_cap (chans s (MessageChan sub))"
  shows "run_replay pick i sub msgs s =
     (Ok (), s\<lparr>chans := (chans s)(MessageChan sub :=
        (chans s (MessageChan sub))\<lparr>ch_buf := ch_buf (chans s (MessageChan sub)) @ msgs\<rparr>)\<rparr>)"
  using assms
proof (induction msgs arbitrary: s i)
  case Nil
  then show ?case by simp
next
  case (Cons msg rest)
  let ?c = "MessageChan sub"
  let ?s1 = "s\<lparr>chans := (chans s)(?c := (chans s ?c)\<lparr>ch_buf := ch_buf (chans s ?c) @ [msg]\<rparr>)\<rparr>"
  from Cons.prems have sel: "select_send (pick i) s ?c = SendCase"
    by (simp add: select_send_def Let_def)
  from Cons.prems have snd: "chan_send ?c msg s = (Ok (), ?s1)"
    by (simp add: chan_send_def)
  have step: "run_replay pick i sub (msg # rest) s = run_replay pick (Suc i) sub rest ?s1"
    by (simp add: sel snd)
  have ih: "run_replay pick (Suc i) sub rest ?s1 =
     (Ok (), ?s1\<lparr>chans := (chans ?s1)(?c :=
        (chans ?s1 ?c)\<lparr>ch_buf := ch_buf (chans ?s1 ?c) @ rest\<rparr>)\<rparr>)"
    by (rule Cons.IH) (use Cons.prems in simp_all)
  have f: "(chans ?s1)(?c := (chans ?s1 ?c)\<lparr>ch_buf := ch_buf (chans ?s1 ?c) @ rest\<rparr>)
      = (chans s)(?c := (chans s ?c)\<lparr>ch_buf := ch_buf (chans s ?c) @ msg # rest\<rparr>)"
    by (simp add: fun_eq_iff)
  have eq: "?s1\<lparr>chans := (chans ?s1)(?c := (chans ?s1 ?c)\<lparr>ch_buf := ch_buf (chans ?s1 ?c) @ rest\<rparr>)\<rparr>
      = s\<lparr>chans := (chans s)(?c := (chans s ?c)\<lparr>ch_buf := ch_buf (chans s ?c) @ msg # rest\<rparr>)\<rparr>"
    unfolding f by simp
  show ?case unfolding step ih eq by (rule refl)
qed

lemma run_replay_shutdown:
  assumes "shutdown s" and "pick i"
  shows "run_replay pick i sub (msg # rest) s = (Ok (), s)"
  using assms by (simp add: select_send_def Let_def)

lemma schedule_fanout:
  assumes j: "j < length (spawned s)" and g: "spawned s ! j = FanOut sub msg"
    and op: "\<not> ch_closed (chans s (MessageChan sub))"
  shows "\<exists>s2. schedule pick j s = (Ok (), s2)
     \<and> spawned s2 = take j (spawned s) @ drop (Suc j) (spawned s)
     \<and> topics s2 = topics s \<and> shutdown s2 = shutdown s
     \<and> (\<forall>d. d \<noteq> MessageChan sub \<longrightarrow> chans s2 d = chans s d)
     \<and> ch_closed (chans s2 (MessageChan sub)) = ch_closed (chans s (MessageChan sub))
     \<and> ch_buf (chans s2 (MessageChan sub)) =
         (if length (ch_buf (chans s (MessageChan sub))) < ch_cap (chans s (MessageChan sub))
             \<and> \<not> (shutdown s \<and> pick 0)
          then ch_buf (chans s (MessageChan sub)) @ [msg]
          else ch_buf (chans s (MessageChan sub)))"
proof -
  let ?s0 = "s\<lparr>spawned := take j (spawned s) @ drop (Suc j) (spawned s)\<rparr>"
  have sch: "schedule pick j s = run_fanout (pick 0) sub msg ?s0"
    using j g by (simp add: schedule_def run_goroutine_def)
  have op0: "\<not> ch_closed (chans ?s0 (MessageChan sub))" using op by simp
  from run_fanout_cases [OF op0, of "pick 0" msg] obtain s2 where
    r: "run_fanout (pick 0) sub msg ?s0 = (Ok (), s2)"
    and rest: "topics s2 = topics ?s0" "shutdown s2 = shutdown ?s0"
      "\<forall>d. d \<noteq> MessageChan sub \<longrightarrow> chans s2 d = chans ?s0 d"
      "ch_closed (chans s2 (MessageChan sub)) = ch_closed (chans ?s0 (MessageChan sub))"
      "ch_buf (chans s2 (MessageChan sub)) =
         (if length (ch_buf (chans ?s0 (MessageChan sub))) < ch_cap (chans ?s0 (MessageChan sub))
             \<and> \<not> (shutdown ?s0 \<and> pick 0)
          then ch_buf (chans ?s0 (MessageChan sub)) @ [msg]
          else ch_buf (chans ?s0 (MessageChan sub)))"
    by blast
  from run_fanout_frame [OF r] have sp: "spawned s2 = take j (spawned s) @ drop (Suc j) (spawned s)"
    by simp
  from sch r sp rest show ?thesis by simp
qed

lemma schedule_replay:
  assumes j: "j < length (spawned s)" and g: "spawned s ! j = Replay sub h"
    and ns: "\<not> shutdown s" and op: "\<not> ch_closed (chans s (MessageChan sub))"
    and cap: "length (ch_buf (chans s (MessageChan sub))) + length h \<le> ch_cap (chans s (MessageChan sub))"
  shows "\<exists>s2. schedule pick j s = (Ok (), s2)
     \<and> spawned s2 = take j (spawned s) @ drop (Suc j) (spawned s)
     \<and> (\<forall>d. d \<noteq> MessageChan sub \<longrightarrow> chans s2 d = chans s d)
     \<and> ch_buf (chans s2 (MessageChan sub)) = ch_buf (chans s (MessageChan sub)) @ h"
proof -
  let ?s0 = "s\<lparr>spawned := take j (spawned s) @ drop (Suc j) (spawned s)\<rparr>"
  have sch: "schedule pick j s = run_replay pick 0 sub h ?s0"
    using j g by (simp add: schedule_def run_goroutine_def)
  have ns0: "\<not> shutdown ?s0" and op0: "\<not> ch_closed (chans ?s0 (MessageChan sub))"
    and cap0: "length (ch_buf (chans ?s0 (MessageChan sub))) + length h \<le> ch_cap (chans ?s0 (MessageChan sub))"
    using ns op cap by simp_all
  note r = run_replay_room [OF ns0 op0 cap0, of pick 0]
  show ?thesis unfolding sch r by simp
qed

lemma replay_step_room:
  assumes j: "j < length (spawned s)" and g: "spawned s ! j = Replay sub (msg # rest)"
    and ns: "\<not> shutdown s" and op: "\<not> ch_closed (chans s (MessageChan sub))"
    and cap: "length (ch_buf (chans s (MessageChan sub))) < ch_cap (chans s (MessageChan sub))"
  shows "\<exists>s2. replay_step p j s = (Ok (), s2)
     \<and> spawned s2 = (spawned s)[j := Replay sub rest]
     \<and> (\<forall>d. d \<noteq> MessageChan sub \<longrightarrow> chans s2 d = chans s d)
     \<and> ch_buf (chans s2 (MessageChan sub)) = ch_buf (chans s (MessageChan sub)) @ [msg]"
proof -
  have sel: "select_send p s (MessageChan sub) = SendCase"
    using ns op cap by (simp add: select_send_def Let_def)
  have snd: "chan_send (MessageChan sub) msg s =
      (Ok (), s\<lparr>chans := (chans s)(MessageChan sub :=
          (chans s (MessageChan sub))\<lparr>ch_buf := ch_buf (chans s (MessageChan sub)) @ [msg]\<rparr>)\<rparr>)"
    using op by (simp add: chan_send_def)
  show ?thesis using j g by (simp add: replay_step_def sel snd)
qed

section \<open>The claims\<close>

subsection \<open>The claims about the ring\<close>

text \<open>
  C8. A ring created with capacity \<open>C \<ge> 1\<close> accepts every sequence of \<open>Add\<close> calls; after
  \<open>k\<close> of them its count is \<open>min k C\<close>, which lies between \<open>0\<close> and \<open>C\<close>, and one more
  \<open>Add\<close> increments the count when it is below \<open>C\<close> and leaves it at \<open>C\<close> otherwise.
\<close>

theorem ring_count_bounded:
  assumes "1 \<le> C"
  shows "\<exists>rb0 rb. NewRingBuffer C = Inr rb0 \<and> add_all rb0 ms = Inr rb
      \<and> Count rb = min (int (length ms)) C \<and> 0 \<le> Count rb \<and> Count rb \<le> C
      \<and> (\<forall>m. \<exists>rb'. Add rb m = Inr rb'
             \<and> Count rb' = (if Count rb < C then Count rb + 1 else C))"
proof -
  from assms have C0: "0 \<le> C" by simp
  from ring_holds_new [OF C0] obtain rb0
    where n: "NewRingBuffer C = Inr rb0" and h0: "ring_holds C [] rb0" by blast
  from add_all_holds [OF assms h0, of ms] obtain rb
    where a: "add_all rb0 ms = Inr rb" and h: "ring_holds C ms rb" by auto
  from h have c: "Count rb = min (int (length ms)) C" by (simp add: ring_holds_def Count_def)
  have "\<exists>rb'. Add rb m = Inr rb' \<and> Count rb' = (if Count rb < C then Count rb + 1 else C)" for m
    using Add_holds [OF assms h, of m] by (auto simp add: Count_def)
  with n a c assms show ?thesis by auto
qed

theorem ring_count_bounded_witness:
  "Count \<lparr>rb_buffer = [Some 9, None], rb_size = 2, rb_head = 1, rb_tail = 1, rb_count = 2\<rparr> = 2
   \<and> (\<forall>m. \<exists>rb'. Add \<lparr>rb_buffer = [Some 9, None], rb_size = 2, rb_head = 1, rb_tail = 1, rb_count = 2\<rparr> m = Inr rb'
          \<and> Count rb' = 2)"
proof -
  have n: "NewRingBuffer 2 = Inr \<lparr>rb_buffer = [None, None], rb_size = 2, rb_head = 0, rb_tail = 0, rb_count = 0\<rparr>"
    by (simp add: NewRingBuffer_def numeral_2_eq_2)
  have a: "add_all \<lparr>rb_buffer = [None, None], rb_size = 2, rb_head = 0, rb_tail = 0, rb_count = 0\<rparr>
       [Some 7, None, Some 9]
     = Inr \<lparr>rb_buffer = [Some 9, None], rb_size = 2, rb_head = 1, rb_tail = 1, rb_count = 2\<rparr>"
    by (simp add: Add_def smod_nonneg)
  show ?thesis
    using ring_count_bounded [of 2 "[Some 7, None, Some 9]"]
    by (simp add: n a Count_def del: add_all.simps)
qed

text \<open>
  C2. Drop-oldest: after \<open>k > C\<close> messages were added to a fresh ring of capacity \<open>C \<ge> 1\<close>,
  \<open>GetLastN n\<close> with \<open>n \<ge> C\<close> returns exactly the last \<open>C\<close> of them, oldest first.
\<close>

theorem ring_drop_oldest:
  assumes "1 \<le> C" and "C < int (length as)" and "C \<le> n"
  shows "\<exists>rb0 rb. NewRingBuffer C = Inr rb0 \<and> add_all rb0 (map Some as) = Inr rb
      \<and> GetLastN rb n = Inr (map Some (drop (length as - nat C) as))"
proof -
  from assms(1) have C0: "0 \<le> C" by simp
  from ring_holds_new [OF C0] obtain rb0
    where n: "NewRingBuffer C = Inr rb0" and h0: "ring_holds C [] rb0" by blast
  from add_all_holds [OF assms(1) h0, of "map Some as"] obtain rb
    where a: "add_all rb0 (map Some as) = Inr rb" and h: "ring_holds C (map Some as) rb" by auto
  have "min n (min (int (length as)) C) = C" using assms by simp
  with GetLastN_holds [OF assms(1) h, of n] n a show ?thesis by simp
qed

theorem ring_drop_oldest_witness:
  "GetLastN \<lparr>rb_buffer = [Some 14, Some 15, Some 13], rb_size = 3, rb_head = 2, rb_tail = 2, rb_count = 3\<rparr> 10
     = Inr [Some 13, Some 14, Some 15]"
proof -
  have n: "NewRingBuffer 3 = Inr \<lparr>rb_buffer = [None, None, None], rb_size = 3, rb_head = 0, rb_tail = 0, rb_count = 0\<rparr>"
    by (simp add: NewRingBuffer_def numeral_3_eq_3)
  have a: "add_all \<lparr>rb_buffer = [None, None, None], rb_size = 3, rb_head = 0, rb_tail = 0, rb_count = 0\<rparr>
       [Some 11, Some 12, Some 13, Some 14, Some 15]
     = Inr \<lparr>rb_buffer = [Some 14, Some 15, Some 13], rb_size = 3, rb_head = 2, rb_tail = 2, rb_count = 3\<rparr>"
    by (simp add: Add_def smod_nonneg)
  show ?thesis
    using ring_drop_oldest [of 3 "[11, 12, 13, 14, 15]" 10] by (simp add: n a del: add_all.simps)
qed

text \<open>
  C7. On a ring that holds the messages added so far, \<open>GetLastN n\<close> returns the
  \<open>min n count\<close> most recent ones, oldest first; it returns the empty list whenever
  \<open>n \<le> 0\<close> or the ring is empty.
\<close>

theorem GetLastN_most_recent:
  assumes "1 \<le> C" and "NewRingBuffer C = Inr rb0" and "add_all rb0 (map Some as) = Inr rb"
  shows "GetLastN rb n = Inr (map Some (drop (length as - nat (min n (Count rb))) as))
      \<and> length (drop (length as - nat (min n (Count rb))) as) = nat (min n (Count rb))
      \<and> (n \<le> 0 \<or> Count rb = 0 \<longrightarrow> GetLastN rb n = Inr [])"
proof -
  from assms(1) have C0: "0 \<le> C" by simp
  from ring_holds_new [OF C0] assms(2) have h0: "ring_holds C [] rb0" by auto
  from add_all_holds [OF assms(1) h0, of "map Some as"] assms(3)
  have h: "ring_holds C (map Some as) rb" by auto
  then have c: "Count rb = min (int (length as)) C" by (simp add: ring_holds_def Count_def)
  have 1: "GetLastN rb n = Inr (map Some (drop (length as - nat (min n (Count rb))) as))"
    using GetLastN_holds [OF assms(1) h, of n] by (simp add: c)
  have 2: "length (drop (length as - nat (min n (Count rb))) as) = nat (min n (Count rb))"
    unfolding c by auto
  have 3: "n \<le> 0 \<or> Count rb = 0 \<longrightarrow> GetLastN rb n = Inr []"
    by (auto simp add: GetLastN_def Count_def)
  from 1 2 3 show ?thesis by blast
qed

theorem GetLastN_most_recent_witness:
  "GetLastN \<lparr>rb_buffer = [Some 14, Some 15, Some 13], rb_size = 3, rb_head = 2, rb_tail = 2, rb_count = 3\<rparr> 2
     = Inr [Some 14, Some 15]"
proof -
  have n: "NewRingBuffer 3 = Inr \<lparr>rb_buffer = [None, None, None], rb_size = 3, rb_head = 0, rb_tail = 0, rb_count = 0\<rparr>"
    by (simp add: NewRingBuffer_def numeral_3_eq_3)
  have a: "add_all \<lparr>rb_buffer = [None, None, None], rb_size = 3, rb_head = 0, rb_tail = 0, rb_count = 0\<rparr>
       [Some 11, Some 12, Some 13, Some 14, Some 15]
     = Inr \<lparr>rb_buffer = [Some 14, Some 15, Some 13], rb_size = 3, rb_head = 2, rb_tail = 2, rb_count = 3\<rparr>"
    by (simp add: Add_def smod_nonneg)
  show ?thesis
    using GetLastN_most_recent [of 3 _ "[11, 12, 13, 14, 15]" _ 2] by (simp add: n a Count_def del: add_all.simps)
qed

subsection \<open>The claims about the service\<close>

text \<open>
  C1. In a reachable state of a broker whose ring capacity is at least 1, \<open>Publish\<close> to an
  existing topic returns success, sets the message's topic to the topic name and its
  timestamp to the current time, replaces its id by the generated UUID exactly when the id
  was empty, and appends the message to the topic's ring (which then holds it as its most
  recent entry). On a topic that does not exist \<open>Publish\<close> returns the error
  \<open>topic <name> not found\<close> and leaves the whole state, message included, as it was.
\<close>

theorem Publish_stamps_and_appends:
  assumes "reachable s" and "1 \<le> RingBufferSize (config s)"
  shows "(\<forall>topic. map_of (topics s) t = Some topic \<longrightarrow>
           (\<exists>s' topic' xs. Publish now uuid t (Some a) s = (Ok (), s')
              \<and> heap s' a = (heap s a)\<lparr>msg_Topic := t, msg_Timestamp := now,
                    msg_ID := (if msg_ID (heap s a) = [] then uuid else msg_ID (heap s a))\<rparr>
              \<and> map_of (topics s') t = Some topic'
              \<and> ring_holds (RingBufferSize (config s)) (map Some xs) (Messages topic)
              \<and> ring_holds (RingBufferSize (config s)) (map Some (xs @ [a])) (Messages topic')
              \<and> GetLastN (Messages topic') 1 = Inr [Some a]))
       \<and> (map_of (topics s) t = None \<longrightarrow> Publish now uuid t m s = (Err (topic_not_found t), s))"
proof (intro conjI allI impI)
  fix topic assume t: "map_of (topics s) t = Some topic"
  from assms(1) have w: "wf s" by (rule reachable_wf)
  from Publish_existing [OF w assms(2) t, of a now uuid] obtain rb xs where
    rh: "ring_holds (RingBufferSize (config s)) (map Some xs) (Messages topic)"
    and rh': "ring_holds (RingBufferSize (config s)) (map Some (xs @ [a])) rb"
    and p: "Publish now uuid t (Some a) s =
          (Ok (), s\<lparr>heap := (heap s)(a := stamp now uuid t (heap s a)),
                    topics := AList.update t (topic\<lparr>Messages := rb\<rparr>) (topics s),
                    spawned := spawned s @ map (\<lambda>subscriber. FanOut subscriber (Some a))
                                             (map snd (Subscribers topic))\<rparr>)"
    by blast
  let ?s' = "s\<lparr>heap := (heap s)(a := stamp now uuid t (heap s a)),
                    topics := AList.update t (topic\<lparr>Messages := rb\<rparr>) (topics s),
                    spawned := spawned s @ map (\<lambda>subscriber. FanOut subscriber (Some a))
                                             (map snd (Subscribers topic))\<rparr>"
  have g: "GetLastN rb 1 = Inr [Some a]"
    using GetLastN_holds [OF assms(2) rh', of 1] assms(2) by simp
  have h: "heap ?s' a = (heap s a)\<lparr>msg_Topic := t, msg_Timestamp := now,
                    msg_ID := (if msg_ID (heap s a) = [] then uuid else msg_ID (heap s a))\<rparr>"
    by (simp add: stamp_def)
  have l: "map_of (topics ?s') t = Some (topic\<lparr>Messages := rb\<rparr>)"
    by (simp add: update_conv')
  show "\<exists>s' topic' xs. Publish now uuid t (Some a) s = (Ok (), s')
              \<and> heap s' a = (heap s a)\<lparr>msg_Topic := t, msg_Timestamp := now,
                    msg_ID := (if msg_ID (heap s a) = [] then uuid else msg_ID (heap s a))\<rparr>
              \<and> map_of (topics s') t = Some topic'
              \<and> ring_holds (RingBufferSize (config s)) (map Some xs) (Messages topic)
              \<and> ring_holds (RingBufferSize (config s)) (map Some (xs @ [a])) (Messages topic')
              \<and> GetLastN (Messages topic') 1 = Inr [Some a]"
    apply (rule exI [of _ ?s'])
    apply (rule exI [of _ "topic\<lparr>Messages := rb\<rparr>"])
    apply (rule exI [of _ xs])
    using p h l rh rh' g by simp
next
  assume "map_of (topics s) t = None"
  then show "Publish now uuid t m s = (Err (topic_not_found t), s)" by (rule Publish_missing)
qed

theorem Publish_stamps_and_appends_witness:
  "fst (Publish 12 ''uuid-1'' ''orders'' (Some 7) demo_subscribed) = Ok ()
   \<and> heap (snd (Publish 12 ''uuid-1'' ''orders'' (Some 7) demo_subscribed)) 7
       = \<lparr>msg_ID = ''uuid-1'', msg_Payload = [], msg_Topic = ''orders'', msg_Timestamp = 12\<rparr>
   \<and> Publish 12 ''uuid-1'' ''nope'' (Some 7) demo_subscribed
       = (Err ''topic nope not found'', demo_subscribed)"
proof -
  have c: "1 \<le> RingBufferSize (config demo_subscribed)"
    by (simp add: demo_subscribed_fields small_config_def)
  have "\<exists>s'. Publish 12 ''uuid-1'' ''orders'' (Some 7) demo_subscribed = (Ok (), s')
      \<and> heap s' 7 = \<lparr>msg_ID = ''uuid-1'', msg_Payload = [], msg_Topic = ''orders'', msg_Timestamp = 12\<rparr>"
    using Publish_stamps_and_appends [OF demo_reachable(3) c, of "''orders''" 12 "''uuid-1''" 7]
    by (auto simp add: demo_subscribed_fields blank_heap_def)
  moreover have "Publish 12 ''uuid-1'' ''nope'' (Some 7) demo_subscribed
       = (Err ''topic nope not found'', demo_subscribed)"
    using Publish_stamps_and_appends [OF demo_reachable(3) c, of "''nope''" 12 "''uuid-1''" 7 "Some 7"]
    by (simp add: demo_subscribed_fields topic_not_found_def)
  ultimately show ?thesis by auto
qed


text \<open>
  C5. In every reachable state every topic holds at most one subscriber with a given client
  id, and \<open>Subscribe\<close> for a client id that is already attached returns the
  already-subscribed error and leaves the state unchanged.
\<close>

theorem one_subscriber_per_client:
  assumes "reachable s" and "map_of (topics s) T = Some topic"
  shows "length (filter (\<lambda>(k, sub). ClientID sub = c) (Subscribers topic)) \<le> 1
     \<and> ((\<exists>p \<in> set (Subscribers topic). ClientID (snd p) = c) \<longrightarrow>
          Subscribe now T c lastN s = (Err (already_subscribed c T), s))"
proof -
  from assms(1) have w: "wf s" by (rule reachable_wf)
  from w assms(2) have tok: "topic_ok s T topic" by (simp add: wf_def)
  then have d: "distinct (map fst (Subscribers topic))" by (simp add: topic_ok_def)
  have key: "ClientID sub = k" if "(k, sub) \<in> set (Subscribers topic)" for k sub
    using wf_entry [OF w assms(2) that] by (simp add: sub_ok_def)
  have "filter (\<lambda>(k, sub). ClientID sub = c) (Subscribers topic)
      = filter (\<lambda>p. fst p = c) (Subscribers topic)"
    by (rule filter_cong) (auto simp add: key)
  with filter_key_le_one [OF d, of c]
  have 1: "length (filter (\<lambda>(k, sub). ClientID sub = c) (Subscribers topic)) \<le> 1" by simp
  have 2: "Subscribe now T c lastN s = (Err (already_subscribed c T), s)"
    if "\<exists>p \<in> set (Subscribers topic). ClientID (snd p) = c"
  proof -
    from that obtain k sub where p: "(k, sub) \<in> set (Subscribers topic)" and e: "ClientID sub = c"
      by auto
    from key [OF p] e have "k = c" by simp
    with wf_entry [OF w assms(2) p] have "map_of (Subscribers topic) c = Some sub" by simp
    with assms(2) show ?thesis by (simp add: Subscribe_def)
  qed
  from 1 2 show ?thesis by blast
qed

theorem one_subscriber_per_client_witness:
  "length (filter (\<lambda>(k, sub). ClientID sub = ''c1'')
      [(''c1'', \<lparr>ClientID = ''c1'', TopicName = ''orders'', MessageChan = 0, LastSeen = 11\<rparr>)]) \<le> 1
   \<and> Subscribe 20 ''orders'' ''c1'' 5 demo_published
       = (Err ''client c1 already subscribed to topic orders'', demo_published)"
  using one_subscriber_per_client [OF demo_reachable(4), of "''orders''" _ "''c1''" 20 5]
  by (simp add: demo_published_fields already_subscribed_def)

text \<open>
  C6. In every reachable state \<open>DeleteTopic\<close> of a topic that is present succeeds, removes
  it from the map, so that \<open>ListTopics\<close> no longer lists it, and closes the channel of every
  subscriber that was attached (a receive on such a channel, once drained, yields \<open>nil\<close> at
  once). On a name that is absent it returns \<open>topic <name> not found\<close> and changes nothing.
\<close>

theorem DeleteTopic_removes_and_closes:
  assumes "reachable s"
  shows "(\<forall>topic. map_of (topics s) T = Some topic \<longrightarrow>
            (\<exists>s' infos. DeleteTopic T s = (Ok (), s')
               \<and> map_of (topics s') T = None
               \<and> ListTopics s' = (Ok infos, s') \<and> T \<notin> ti_Name ` set infos
               \<and> (\<forall>p \<in> set (Subscribers topic).
                     ch_closed (chans s' (MessageChan (snd p)))
                     \<and> (ch_buf (chans s' (MessageChan (snd p))) = [] \<longrightarrow>
                          fst (chan_recv (MessageChan (snd p)) s') = Some None))))
       \<and> (map_of (topics s) T = None \<longrightarrow> DeleteTopic T s = (Err (topic_not_found T), s))"
proof (intro conjI allI impI)
  fix topic assume t: "map_of (topics s) T = Some topic"
  from assms have w: "wf s" by (rule reachable_wf)
  from close_all_total [OF topic_chans_distinct [OF w t], of "chans s"] topic_chans_open [OF w t]
  obtain cs where cl: "close_all (map snd (Subscribers topic)) (chans s) = Inr cs" by blast
  let ?s' = "s\<lparr>chans := cs, topics := AList.delete T (topics s)\<rparr>"
  let ?infos = "map (\<lambda>(name, topic).
             \<lparr>ti_Name = name, ti_Subscribers = int (length (Subscribers topic))\<rparr>) (topics ?s')"
  have d: "DeleteTopic T s = (Ok (), ?s')" by (simp add: DeleteTopic_def t cl)
  have g: "map_of (topics ?s') T = None" by (simp add: delete_conv')
  have l: "ListTopics ?s' = (Ok ?infos, ?s')" by (simp add: ListTopics_def)
  have "ti_Name ` set ?infos = fst ` set (AList.delete T (topics s))"
    by (auto simp add: image_iff split: prod.splits) force+
  then have n: "T \<notin> ti_Name ` set ?infos" using delete_notin_dom [of T "topics s"] by simp
  have c: "ch_closed (chans ?s' (MessageChan (snd p)))
         \<and> (ch_buf (chans ?s' (MessageChan (snd p))) = [] \<longrightarrow>
              fst (chan_recv (MessageChan (snd p)) ?s') = Some None)"
    if "p \<in> set (Subscribers topic)" for p
  proof -
    from that have "MessageChan (snd p) \<in> MessageChan ` set (map snd (Subscribers topic))" by auto
    with close_all_result [OF cl, of "MessageChan (snd p)"]
    have "ch_closed (cs (MessageChan (snd p)))" by simp
    then show ?thesis by (simp add: chan_recv_def)
  qed
  show "\<exists>s' infos. DeleteTopic T s = (Ok (), s')
               \<and> map_of (topics s') T = None
               \<and> ListTopics s' = (Ok infos, s') \<and> T \<notin> ti_Name ` set infos
               \<and> (\<forall>p \<in> set (Subscribers topic).
                     ch_closed (chans s' (MessageChan (snd p)))
                     \<and> (ch_buf (chans s' (MessageChan (snd p))) = [] \<longrightarrow>
                          fst (chan_recv (MessageChan (snd p)) s') = Some None))"
    apply (rule exI [of _ ?s'])
    apply (rule exI [of _ ?infos])
    using d g l n c by blast
next
  assume "map_of (topics s) T = None"
  then show "DeleteTopic T s = (Err (topic_not_found T), s)" by (simp add: DeleteTopic_def)
qed


theorem DeleteTopic_removes_and_closes_witness:
  "fst (DeleteTopic ''orders'' demo_published) = Ok ()
   \<and> map_of (topics (snd (DeleteTopic ''orders'' demo_published))) ''orders'' = None
   \<and> ch_closed (chans (snd (DeleteTopic ''orders'' demo_published)) 0)
   \<and> DeleteTopic ''nope'' demo_published = (Err ''topic nope not found'', demo_published)"
proof -
  have "\<exists>s'. DeleteTopic ''orders'' demo_published = (Ok (), s')
      \<and> map_of (topics s') ''orders'' = None \<and> ch_closed (chans s' 0)"
    using DeleteTopic_removes_and_closes [OF demo_reachable(4), of "''orders''"]
    by (auto simp add: demo_published_fields)
  moreover have "DeleteTopic ''nope'' demo_published = (Err ''topic nope not found'', demo_published)"
    using DeleteTopic_removes_and_closes [OF demo_reachable(4), of "''nope''"]
    by (simp add: demo_published_fields topic_not_found_def)
  ultimately show ?thesis by auto
qed

text \<open>
  C9. A publish frame whose topic is empty, whose message is absent or whose message id is
  the empty string is answered with an error of code \<open>BAD_REQUEST\<close>, the state is untouched
  and the answer does not depend on the service's \<open>Publish\<close> at all (it is not called).
  Any other publish frame leaves the state that \<open>Publish\<close> returns, and when \<open>Publish\<close>
  succeeds the answer is an \<open>ack\<close> with status \<open>ok\<close> that echoes the topic.
\<close>

theorem handlePublish_validates:
  "(req_Topic req = [] \<or> req_Message req = None
      \<or> (\<exists>a. req_Message req = Some a \<and> msg_ID (heap s a) = []) \<longrightarrow>
      (\<exists>e. handlePublish publish req response s
             = (Ok (response\<lparr>resp_Type := ''error'', resp_Error := Some e\<rparr>), s)
           \<and> err_Code e = ''BAD_REQUEST''
           \<and> handlePublish publish' req response s = handlePublish publish req response s))
   \<and> (\<not> (req_Topic req = [] \<or> req_Message req = None
          \<or> (\<exists>a. req_Message req = Some a \<and> msg_ID (heap s a) = [])) \<longrightarrow>
        snd (handlePublish publish req response s) = snd (publish (req_Topic req) (req_Message req) s)
        \<and> (fst (publish (req_Topic req) (req_Message req) s) = Ok () \<longrightarrow>
             fst (handlePublish publish req response s)
               = Ok (response\<lparr>resp_Type := ''ack'', resp_Topic := req_Topic req, resp_Status := ''ok''\<rparr>)))"
proof (intro conjI impI)
  assume bad: "req_Topic req = [] \<or> req_Message req = None
      \<or> (\<exists>a. req_Message req = Some a \<and> msg_ID (heap s a) = [])"
  show "\<exists>e. handlePublish publish req response s
             = (Ok (response\<lparr>resp_Type := ''error'', resp_Error := Some e\<rparr>), s)
           \<and> err_Code e = ''BAD_REQUEST''
           \<and> handlePublish publish' req response s = handlePublish publish req response s"
  proof (cases "req_Topic req = [] \<or> req_Message req = None")
    case True
    then show ?thesis
      by (auto simp add: handlePublish_def WSResponseTypeError_def ErrorCodeBadRequest_def)
  next
    case False
    with bad obtain a where "req_Message req = Some a" "msg_ID (heap s a) = []" by auto
    with False show ?thesis
      by (auto simp add: handlePublish_def WSResponseTypeError_def ErrorCodeBadRequest_def)
  qed
next
  assume good: "\<not> (req_Topic req = [] \<or> req_Message req = None
          \<or> (\<exists>a. req_Message req = Some a \<and> msg_ID (heap s a) = []))"
  then obtain a where a: "req_Message req = Some a" and id: "msg_ID (heap s a) \<noteq> []"
    and tp: "req_Topic req \<noteq> []" by auto
  obtain r s' where p: "publish (req_Topic req) (req_Message req) s = (r, s')" by fastforce
  show "snd (handlePublish publish req response s) = snd (publish (req_Topic req) (req_Message req) s)"
    using a id tp p by (cases r) (simp_all add: handlePublish_def)
next
  assume good: "\<not> (req_Topic req = [] \<or> req_Message req = None
          \<or> (\<exists>a. req_Message req = Some a \<and> msg_ID (heap s a) = []))"
    and ok: "fst (publish (req_Topic req) (req_Message req) s) = Ok ()"
  from good obtain a where a: "req_Message req = Some a" and id: "msg_ID (heap s a) \<noteq> []"
    and tp: "req_Topic req \<noteq> []" by auto
  from ok obtain s' where p: "publish (req_Topic req) (req_Message req) s = (Ok (), s')"
    by (cases "publish (req_Topic req) (req_Message req) s") simp
  show "fst (handlePublish publish req response s)
               = Ok (response\<lparr>resp_Type := ''ack'', resp_Topic := req_Topic req, resp_Status := ''ok''\<rparr>)"
    using a id tp p by (simp add: handlePublish_def WSResponseTypeAck_def)
qed

theorem handlePublish_validates_witness:
  "handlePublish (Publish 14 ''uuid-2'') (demo_request (Some 8)) demo_response demo_published
     = (Ok (demo_response\<lparr>resp_Type := ''error'',
              resp_Error := Some \<lparr>err_Code = ''BAD_REQUEST'', err_Message = ''message.id is required''\<rparr>\<rparr>),
        demo_published)
   \<and> fst (handlePublish (Publish 14 ''uuid-2'') (demo_request (Some 7)) demo_response demo_published)
     = Ok (demo_response\<lparr>resp_Type := ''ack'', resp_Topic := ''orders'', resp_Status := ''ok''\<rparr>)"
proof -
  have h8: "msg_ID (heap demo_published 8) = []"
    by (simp add: demo_published_def Publish_def demo_subscribed_fields Add_def smod_nonneg
        blank_heap_def Let_def)
  have p: "fst (Publish 14 ''uuid-2'' ''orders'' (Some 7) demo_published) = Ok ()"
    by (simp add: Publish_def demo_published_fields Add_def smod_nonneg Let_def)
  have "\<exists>e. handlePublish (Publish 14 ''uuid-2'') (demo_request (Some 8)) demo_response demo_published
       = (Ok (demo_response\<lparr>resp_Type := ''error'', resp_Error := Some e\<rparr>), demo_published)
     \<and> err_Code e = ''BAD_REQUEST''"
    using handlePublish_validates [where req = "demo_request (Some 8)" and s = demo_published
        and publish = "Publish 14 ''uuid-2''" and publish' = "Publish 14 ''uuid-2''" and response = demo_response]
      h8 by (simp add: demo_request_def)
  then have 1: "handlePublish (Publish 14 ''uuid-2'') (demo_request (Some 8)) demo_response demo_published
     = (Ok (demo_response\<lparr>resp_Type := ''error'',
              resp_Error := Some \<lparr>err_Code = ''BAD_REQUEST'', err_Message = ''message.id is required''\<rparr>\<rparr>),
        demo_published)"
    using h8 by (simp add: handlePublish_def demo_request_def WSResponseTypeError_def ErrorCodeBadRequest_def)
  have 2: "fst (handlePublish (Publish 14 ''uuid-2'') (demo_request (Some 7)) demo_response demo_published)
     = Ok (demo_response\<lparr>resp_Type := ''ack'', resp_Topic := ''orders'', resp_Status := ''ok''\<rparr>)"
    using handlePublish_validates [where req = "demo_request (Some 7)" and s = demo_published
        and publish = "Publish 14 ''uuid-2''" and publish' = "Publish 14 ''uuid-2''" and response = demo_response]
      p by (simp add: demo_request_def demo_published_fields)
  from 1 2 show ?thesis by simp
qed


text \<open>
  C10. \<open>Publish\<close> stamps the caller's object in place and stores the same reference in the
  ring and in the goroutines that fill the subscriber queues. After a second \<open>Publish\<close> of the
  same object to another topic, the first topic's ring and the queues are unchanged (they
  still hold the reference), and the object they refer to now carries the second topic and
  timestamp; any other write to the object shows through in the same way.
\<close>

theorem Publish_shares_reference:
  assumes "reachable s" and "1 \<le> RingBufferSize (config s)"
    and "map_of (topics s) t1 = Some T1" and "map_of (topics s) t2 = Some T2" and "t1 \<noteq> t2"
  shows "\<exists>s1 s2 T1'. Publish now1 uuid1 t1 (Some a) s = (Ok (), s1)
     \<and> Publish now2 uuid2 t2 (Some a) s1 = (Ok (), s2)
     \<and> heap s1 a = stamp now1 uuid1 t1 (heap s a)
     \<and> map_of (topics s1) t1 = Some T1' \<and> GetLastN (Messages T1') 1 = Inr [Some a]
     \<and> (\<forall>p \<in> set (Subscribers T1). FanOut (snd p) (Some a) \<in> set (spawned s1)
           \<and> (\<not> shutdown s1
                \<and> length (ch_buf (chans s1 (MessageChan (snd p)))) < ch_cap (chans s1 (MessageChan (snd p)))
              \<longrightarrow> ch_buf (chans (snd (run_fanout pick (snd p) (Some a) s1)) (MessageChan (snd p)))
                    = ch_buf (chans s1 (MessageChan (snd p))) @ [Some a]))
     \<and> map_of (topics s2) t1 = Some T1' \<and> chans s2 = chans s1
     \<and> set (spawned s1) \<subseteq> set (spawned s2)
     \<and> heap s2 a = stamp now2 uuid2 t2 (heap s1 a)
     \<and> msg_Topic (heap s1 a) = t1 \<and> msg_Topic (heap s2 a) = t2 \<and> msg_Timestamp (heap s2 a) = now2
     \<and> (\<forall>m. topics (s1\<lparr>heap := (heap s1)(a := m)\<rparr>) = topics s1
             \<and> chans (s1\<lparr>heap := (heap s1)(a := m)\<rparr>) = chans s1
             \<and> heap (s1\<lparr>heap := (heap s1)(a := m)\<rparr>) a = m)"
proof -
  from assms(1) have w: "wf s" by (rule reachable_wf)
  from Publish_existing [OF w assms(2) assms(3), of a now1 uuid1] obtain rb xs where
    rh': "ring_holds (RingBufferSize (config s)) (map Some (xs @ [a])) rb"
    and p1: "Publish now1 uuid1 t1 (Some a) s =
          (Ok (), s\<lparr>heap := (heap s)(a := stamp now1 uuid1 t1 (heap s a)),
                    topics := AList.update t1 (T1\<lparr>Messages := rb\<rparr>) (topics s),
                    spawned := spawned s @ map (\<lambda>subscriber. FanOut subscriber (Some a))
                                             (map snd (Subscribers T1))\<rparr>)"
    by blast
  define s1 where "s1 = s\<lparr>heap := (heap s)(a := stamp now1 uuid1 t1 (heap s a)),
                    topics := AList.update t1 (T1\<lparr>Messages := rb\<rparr>) (topics s),
                    spawned := spawned s @ map (\<lambda>subscriber. FanOut subscriber (Some a))
                                             (map snd (Subscribers T1))\<rparr>"
  have p1': "Publish now1 uuid1 t1 (Some a) s = (Ok (), s1)" using p1 by (simp add: s1_def)
  have r1: "reachable s1" by (rule r_publish [OF assms(1) p1'])
  then have w1: "wf s1" by (rule reachable_wf)
  have c1: "1 \<le> RingBufferSize (config s1)" using assms(2) by (simp add: s1_def)
  have t2: "map_of (topics s1) t2 = Some T2" using assms(4,5) by (simp add: s1_def update_conv')
  have t1: "map_of (topics s1) t1 = Some (T1\<lparr>Messages := rb\<rparr>)" by (simp add: s1_def update_conv')
  from Publish_existing [OF w1 c1 t2, of a now2 uuid2] obtain rb2 where
    p2: "Publish now2 uuid2 t2 (Some a) s1 =
          (Ok (), s1\<lparr>heap := (heap s1)(a := stamp now2 uuid2 t2 (heap s1 a)),
                    topics := AList.update t2 (T2\<lparr>Messages := rb2\<rparr>) (topics s1),
                    spawned := spawned s1 @ map (\<lambda>subscriber. FanOut subscriber (Some a))
                                             (map snd (Subscribers T2))\<rparr>)"
    by blast
  define s2 where "s2 = s1\<lparr>heap := (heap s1)(a := stamp now2 uuid2 t2 (heap s1 a)),
                    topics := AList.update t2 (T2\<lparr>Messages := rb2\<rparr>) (topics s1),
                    spawned := spawned s1 @ map (\<lambda>subscriber. FanOut subscriber (Some a))
                                             (map snd (Subscribers T2))\<rparr>"
  have p2': "Publish now2 uuid2 t2 (Some a) s1 = (Ok (), s2)" using p2 by (simp add: s2_def)
  have h1: "heap s1 a = stamp now1 uuid1 t1 (heap s a)" by (simp add: s1_def)
  have g: "GetLastN (Messages (T1\<lparr>Messages := rb\<rparr>)) 1 = Inr [Some a]"
    using GetLastN_holds [OF assms(2) rh', of 1] assms(2) by simp
  have f: "FanOut (snd p) (Some a) \<in> set (spawned s1)
           \<and> (\<not> shutdown s1
                \<and> length (ch_buf (chans s1 (MessageChan (snd p)))) < ch_cap (chans s1 (MessageChan (snd p)))
              \<longrightarrow> ch_buf (chans (snd (run_fanout pick (snd p) (Some a) s1)) (MessageChan (snd p)))
                    = ch_buf (chans s1 (MessageChan (snd p))) @ [Some a])"
    if p: "p \<in> set (Subscribers T1)" for p
  proof -
    have 1: "FanOut (snd p) (Some a) \<in> set (spawned s1)" using p by (auto simp add: s1_def)
    from p have "(fst p, snd p) \<in> set (Subscribers (T1\<lparr>Messages := rb\<rparr>))" by simp
    from wf_entry [OF w1 t1 this]
    have op: "\<not> ch_closed (chans s1 (MessageChan (snd p)))" by (simp add: sub_ok_def)
    have 2: "ch_buf (chans (snd (run_fanout pick (snd p) (Some a) s1)) (MessageChan (snd p)))
                    = ch_buf (chans s1 (MessageChan (snd p))) @ [Some a]"
      if "\<not> shutdown s1"
        "length (ch_buf (chans s1 (MessageChan (snd p)))) < ch_cap (chans s1 (MessageChan (snd p)))"
      using run_fanout_room [OF op that(2), of pick "Some a"] that(1) by simp
    from 1 2 show ?thesis by blast
  qed
  have t1': "map_of (topics s2) t1 = Some (T1\<lparr>Messages := rb\<rparr>)"
    using t1 assms(5) by (simp add: s2_def update_conv')
  have ch: "chans s2 = chans s1" by (simp add: s2_def)
  have sp: "set (spawned s1) \<subseteq> set (spawned s2)" by (auto simp add: s2_def)
  have h2: "heap s2 a = stamp now2 uuid2 t2 (heap s1 a)" by (simp add: s2_def)
  have m1: "msg_Topic (heap s1 a) = t1" by (simp add: h1 stamp_def)
  have m2: "msg_Topic (heap s2 a) = t2" "msg_Timestamp (heap s2 a) = now2"
    by (simp_all add: h2 stamp_def)
  have wr: "topics (s1\<lparr>heap := (heap s1)(a := m)\<rparr>) = topics s1
             \<and> chans (s1\<lparr>heap := (heap s1)(a := m)\<rparr>) = chans s1
             \<and> heap (s1\<lparr>heap := (heap s1)(a := m)\<rparr>) a = m" for m
    by simp
  show ?thesis
    apply (rule exI [of _ s1])
    apply (rule exI [of _ s2])
    apply (rule exI [of _ "T1\<lparr>Messages := rb\<rparr>"])
    using p1' p2' h1 t1 g f t1' ch sp h2 m1 m2 wr by blast
qed


theorem Publish_shares_reference_witness:
  "GetLastN (Messages (the (map_of (topics
       (snd (Publish 21 ''uuid-3'' ''audit'' (Some 7)
          (snd (Publish 20 ''uuid-2'' ''orders'' (Some 7) demo_two_topics))))) ''orders''))) 1
     = Inr [Some 7]
   \<and> msg_Topic (heap (snd (Publish 20 ''uuid-2'' ''orders'' (Some 7) demo_two_topics)) 7) = ''orders''
   \<and> msg_Topic (heap
       (snd (Publish 21 ''uuid-3'' ''audit'' (Some 7)
          (snd (Publish 20 ''uuid-2'' ''orders'' (Some 7) demo_two_topics)))) 7) = ''audit''"
proof -
  have c: "1 \<le> RingBufferSize (config demo_two_topics)"
    by (simp add: demo_two_topics_fields small_config_def)
  have t1: "map_of (topics demo_two_topics) ''orders'' = Some (\<lparr>Name = ''orders'',
      Subscribers = [(''c1'', \<lparr>ClientID = ''c1'', TopicName = ''orders'', MessageChan = 0, LastSeen = 11\<rparr>)],
      Messages = \<lparr>rb_buffer = [Some 7, None], rb_size = 2, rb_head = 0, rb_tail = 1, rb_count = 1\<rparr>,
      CreatedAt = 10\<rparr>)"
    by (simp add: demo_two_topics_fields)
  have t2: "map_of (topics demo_two_topics) ''audit'' = Some (\<lparr>Name = ''audit'', Subscribers = [],
      Messages = \<lparr>rb_buffer = [None, None], rb_size = 2, rb_head = 0, rb_tail = 0, rb_count = 0\<rparr>,
      CreatedAt = 13\<rparr>)"
    by (simp add: demo_two_topics_fields)
  have ne: "''orders'' \<noteq> ''audit''" by simp
  from Publish_shares_reference [OF demo_two_topics_reachable c t1 t2 ne,
      of 20 "''uuid-2''" 7 21 "''uuid-3''" False]
  obtain s1 s2 T1' where
    "Publish 20 ''uuid-2'' ''orders'' (Some 7) demo_two_topics = (Ok (), s1)"
    "Publish 21 ''uuid-3'' ''audit'' (Some 7) s1 = (Ok (), s2)"
    "map_of (topics s2) ''orders'' = Some T1'" "GetLastN (Messages T1') 1 = Inr [Some 7]"
    "msg_Topic (heap s1 7) = ''orders''" "msg_Topic (heap s2 7) = ''audit''"
    by blast
  then show ?thesis by simp
qed

text \<open>
  C4, as amended. \<open>Publish\<close> to an existing topic returns success whatever the state of the
  queues, touches no queue itself and starts exactly one send per attached subscriber.
  Whenever the scheduler runs one of these sends, in whatever state the broker is by then,
  the send judges the subscriber's queue as it is at that moment, provided it is still open:
  a full queue is left as it is (the message is dropped for that subscriber); a queue with
  free capacity gets the message appended exactly once if the service has not been stopped,
  and at most once if it has (after \<open>Stop\<close> the send may take the shutdown case instead); no
  other queue changes and the send is gone from the pending goroutines. In particular, when
  the new sends run right after \<open>Publish\<close>, the same holds with the queues as they were at
  the publish. What a send does on a queue closed in the meantime is not part of the statement.
\<close>

theorem Publish_fans_out:
  assumes "reachable s" and "1 \<le> RingBufferSize (config s)"
    and "map_of (topics s) t = Some topic"
  shows "\<exists>s1. Publish now uuid t (Some a) s = (Ok (), s1)
     \<and> spawned s1 = spawned s @ map (\<lambda>sub. FanOut sub (Some a)) (map snd (Subscribers topic))
     \<and> distinct (map fst (Subscribers topic))
     \<and> chans s1 = chans s
     \<and> (\<forall>p \<in> set (Subscribers topic). \<forall>s' pick j.
           j < length (spawned s') \<and> spawned s' ! j = FanOut (snd p) (Some a)
           \<and> \<not> ch_closed (chans s' (MessageChan (snd p))) \<longrightarrow>
           (\<exists>s2. schedule pick j s' = (Ok (), s2)
              \<and> spawned s2 = take j (spawned s') @ drop (Suc j) (spawned s')
              \<and> (\<forall>d. d \<noteq> MessageChan (snd p) \<longrightarrow> chans s2 d = chans s' d)
              \<and> (\<not> length (ch_buf (chans s' (MessageChan (snd p)))) < ch_cap (chans s' (MessageChan (snd p)))
                   \<longrightarrow> ch_buf (chans s2 (MessageChan (snd p))) = ch_buf (chans s' (MessageChan (snd p))))
              \<and> (length (ch_buf (chans s' (MessageChan (snd p)))) < ch_cap (chans s' (MessageChan (snd p)))
                   \<and> \<not> shutdown s'
                   \<longrightarrow> ch_buf (chans s2 (MessageChan (snd p)))
                         = ch_buf (chans s' (MessageChan (snd p))) @ [Some a])
              \<and> (ch_buf (chans s2 (MessageChan (snd p))) = ch_buf (chans s' (MessageChan (snd p)))
                   \<or> ch_buf (chans s2 (MessageChan (snd p)))
                         = ch_buf (chans s' (MessageChan (snd p))) @ [Some a])))
     \<and> (\<exists>s2. run_all picks k (map (\<lambda>sub. FanOut sub (Some a)) (map snd (Subscribers topic))) s1 = (Ok (), s2)
         \<and> (\<forall>p \<in> set (Subscribers topic).
           (\<not> length (ch_buf (chans s (MessageChan (snd p)))) < ch_cap (chans s (MessageChan (snd p)))
              \<longrightarrow> ch_buf (chans s2 (MessageChan (snd p))) = ch_buf (chans s (MessageChan (snd p))))
         \<and> (length (ch_buf (chans s (MessageChan (snd p)))) < ch_cap (chans s (MessageChan (snd p)))
              \<and> \<not> shutdown s
              \<longrightarrow> ch_buf (chans s2 (MessageChan (snd p))) = ch_buf (chans s (MessageChan (snd p))) @ [Some a])
         \<and> (ch_buf (chans s2 (MessageChan (snd p))) = ch_buf (chans s (MessageChan (snd p)))
              \<or> ch_buf (chans s2 (MessageChan (snd p))) = ch_buf (chans s (MessageChan (snd p))) @ [Some a])))"
proof -
  from assms(1) have w: "wf s" by (rule reachable_wf)
  from Publish_existing [OF w assms(2) assms(3), of a now uuid] obtain rb where
    p: "Publish now uuid t (Some a) s =
          (Ok (), s\<lparr>heap := (heap s)(a := stamp now uuid t (heap s a)),
                    topics := AList.update t (topic\<lparr>Messages := rb\<rparr>) (topics s),
                    spawned := spawned s @ map (\<lambda>subscriber. FanOut subscriber (Some a))
                                             (map snd (Subscribers topic))\<rparr>)"
    by blast
  define s1 where "s1 = s\<lparr>heap := (heap s)(a := stamp now uuid t (heap s a)),
                    topics := AList.update t (topic\<lparr>Messages := rb\<rparr>) (topics s),
                    spawned := spawned s @ map (\<lambda>subscriber. FanOut subscriber (Some a))
                                             (map snd (Subscribers topic))\<rparr>"
  have p': "Publish now uuid t (Some a) s = (Ok (), s1)" using p by (simp add: s1_def)
  have sp: "spawned s1 = spawned s @ map (\<lambda>sub. FanOut sub (Some a)) (map snd (Subscribers topic))"
    by (simp add: s1_def)
  have ch: "chans s1 = chans s" and sh: "shutdown s1 = shutdown s" by (simp_all add: s1_def)
  from w assms(3) have dk: "distinct (map fst (Subscribers topic))"
    by (simp add: wf_def topic_ok_def)
  have later: "\<exists>s2. schedule pick j s' = (Ok (), s2)
              \<and> spawned s2 = take j (spawned s') @ drop (Suc j) (spawned s')
              \<and> (\<forall>d. d \<noteq> MessageChan (snd p) \<longrightarrow> chans s2 d = chans s' d)
              \<and> (\<not> length (ch_buf (chans s' (MessageChan (snd p)))) < ch_cap (chans s' (MessageChan (snd p)))
                   \<longrightarrow> ch_buf (chans s2 (MessageChan (snd p))) = ch_buf (chans s' (MessageChan (snd p))))
              \<and> (length (ch_buf (chans s' (MessageChan (snd p)))) < ch_cap (chans s' (MessageChan (snd p)))
                   \<and> \<not> shutdown s'
                   \<longrightarrow> ch_buf (chans s2 (MessageChan (snd p)))
                         = ch_buf (chans s' (MessageChan (snd p))) @ [Some a])
              \<and> (ch_buf (chans s2 (MessageChan (snd p))) = ch_buf (chans s' (MessageChan (snd p)))
                   \<or> ch_buf (chans s2 (MessageChan (snd p)))
                         = ch_buf (chans s' (MessageChan (snd p))) @ [Some a])"
    if "j < length (spawned s') \<and> spawned s' ! j = FanOut (snd p) (Some a)
           \<and> \<not> ch_closed (chans s' (MessageChan (snd p)))"
    for p :: "string \<times> Subscriber" and s' pick j
  proof -
    from that have j: "j < length (spawned s')" and g: "spawned s' ! j = FanOut (snd p) (Some a)"
      and op: "\<not> ch_closed (chans s' (MessageChan (snd p)))" by simp_all
    from schedule_fanout [OF j g op, of pick] obtain s2 where
      "schedule pick j s' = (Ok (), s2)"
      "spawned s2 = take j (spawned s') @ drop (Suc j) (spawned s')"
      "\<forall>d. d \<noteq> MessageChan (snd p) \<longrightarrow> chans s2 d = chans s' d"
      "ch_buf (chans s2 (MessageChan (snd p))) =
         (if length (ch_buf (chans s' (MessageChan (snd p)))) < ch_cap (chans s' (MessageChan (snd p)))
             \<and> \<not> (shutdown s' \<and> pick 0)
          then ch_buf (chans s' (MessageChan (snd p))) @ [Some a]
          else ch_buf (chans s' (MessageChan (snd p))))"
      by blast
    then show ?thesis by (intro exI [of _ s2]) (auto split: if_splits)
  qed
  have d: "distinct (map MessageChan (map snd (Subscribers topic)))"
    by (rule topic_chans_distinct [OF w assms(3)])
  have op: "\<forall>sub \<in> set (map snd (Subscribers topic)). \<not> ch_closed (chans s1 (MessageChan sub))"
    using topic_chans_open [OF w assms(3)] by (simp add: ch)
  from run_all_fanout [OF d op, of picks k "Some a"] obtain s2 where
    r: "run_all picks k (map (\<lambda>sub. FanOut sub (Some a)) (map snd (Subscribers topic))) s1 = (Ok (), s2)"
    and b: "\<And>sub. sub \<in> set (map snd (Subscribers topic)) \<Longrightarrow>
           \<exists>pick. ch_buf (chans s2 (MessageChan sub)) =
             (if length (ch_buf (chans s1 (MessageChan sub))) < ch_cap (chans s1 (MessageChan sub))
                 \<and> \<not> (shutdown s1 \<and> pick)
              then ch_buf (chans s1 (MessageChan sub)) @ [Some a]
              else ch_buf (chans s1 (MessageChan sub)))"
    by blast
  have e: "(\<not> length (ch_buf (chans s (MessageChan (snd p)))) < ch_cap (chans s (MessageChan (snd p)))
              \<longrightarrow> ch_buf (chans s2 (MessageChan (snd p))) = ch_buf (chans s (MessageChan (snd p))))
         \<and> (length (ch_buf (chans s (MessageChan (snd p)))) < ch_cap (chans s (MessageChan (snd p)))
              \<and> \<not> shutdown s
              \<longrightarrow> ch_buf (chans s2 (MessageChan (snd p))) = ch_buf (chans s (MessageChan (snd p))) @ [Some a])
         \<and> (ch_buf (chans s2 (MessageChan (snd p))) = ch_buf (chans s (MessageChan (snd p)))
              \<or> ch_buf (chans s2 (MessageChan (snd p))) = ch_buf (chans s (MessageChan (snd p))) @ [Some a])"
    if "p \<in> set (Subscribers topic)" for p
  proof -
    from that have "snd p \<in> set (map snd (Subscribers topic))" by simp
    from b [OF this] obtain pick where
      "ch_buf (chans s2 (MessageChan (snd p))) =
             (if length (ch_buf (chans s (MessageChan (snd p)))) < ch_cap (chans s (MessageChan (snd p)))
                 \<and> \<not> (shutdown s \<and> pick)
              then ch_buf (chans s (MessageChan (snd p))) @ [Some a]
              else ch_buf (chans s (MessageChan (snd p))))"
      unfolding ch sh by blast
    then show ?thesis by (auto split: if_splits)
  qed
  have now: "\<exists>s2. run_all picks k (map (\<lambda>sub. FanOut sub (Some a)) (map snd (Subscribers topic))) s1 = (Ok (), s2)
         \<and> (\<forall>p \<in> set (Subscribers topic).
           (\<not> length (ch_buf (chans s (MessageChan (snd p)))) < ch_cap (chans s (MessageChan (snd p)))
              \<longrightarrow> ch_buf (chans s2 (MessageChan (snd p))) = ch_buf (chans s (MessageChan (snd p))))
         \<and> (length (ch_buf (chans s (MessageChan (snd p)))) < ch_cap (chans s (MessageChan (snd p)))
              \<and> \<not> shutdown s
              \<longrightarrow> ch_buf (chans s2 (MessageChan (snd p))) = ch_buf (chans s (MessageChan (snd p))) @ [Some a])
         \<and> (ch_buf (chans s2 (MessageChan (snd p))) = ch_buf (chans s (MessageChan (snd p)))
              \<or> ch_buf (chans s2 (MessageChan (snd p))) = ch_buf (chans s (MessageChan (snd p))) @ [Some a]))"
    using r e by blast
  show ?thesis
    apply (rule exI [of _ s1])
    apply (intro conjI)
         apply (rule p')
        apply (rule sp)
       apply (rule dk)
      apply (rule ch)
     apply (intro ballI allI impI)
     apply (rule later)
     apply assumption
    apply (rule now)
    done
qed


theorem Publish_fans_out_witness:
  "fst (Publish 13 ''uuid-2'' ''orders'' (Some 8) demo_published) = Ok ()
   \<and> ch_buf (chans (snd (schedule shutdown_first 0 (snd (schedule shutdown_first 0 demo_second)))) 0)
       = [Some 7, Some 8]
   \<and> ch_buf (chans (snd (run_all all_shutdown_first 0
        [FanOut \<lparr>ClientID = ''c1'', TopicName = ''orders'', MessageChan = 0, LastSeen = 11\<rparr> (Some 8)]
        demo_second)) 0) = [Some 8]"
proof -
  let ?sub = "\<lparr>ClientID = ''c1'', TopicName = ''orders'', MessageChan = 0, LastSeen = 11\<rparr>"
  let ?T = "\<lparr>Name = ''orders'', Subscribers = [(''c1'', ?sub)],
      Messages = \<lparr>rb_buffer = [Some 7, None], rb_size = 2, rb_head = 0, rb_tail = 1, rb_count = 1\<rparr>,
      CreatedAt = 10\<rparr>"
  let ?sA = "snd (schedule shutdown_first 0 demo_second)"
  have c: "1 \<le> RingBufferSize (config demo_published)"
    by (simp add: demo_published_fields small_config_def)
  have t: "map_of (topics demo_published) ''orders'' = Some ?T"
    by (simp add: demo_published_fields)
  have sA: "spawned ?sA = [FanOut ?sub (Some 8)]"
    "chans ?sA 0 = \<lparr>ch_buf = [Some 7], ch_cap = 2, ch_closed = False\<rparr>" "\<not> shutdown ?sA"
    by (simp_all add: schedule_def demo_second_fields run_goroutine_def run_fanout_def
          select_send_def chan_send_def Let_def)
  from Publish_fans_out [OF demo_reachable(4) c t, of 13 "''uuid-2''" 8 all_shutdown_first 0]
  obtain s1 where p: "Publish 13 ''uuid-2'' ''orders'' (Some 8) demo_published = (Ok (), s1)"
    and g: "\<forall>p \<in> set (Subscribers ?T). \<forall>s' pick j.
           j < length (spawned s') \<and> spawned s' ! j = FanOut (snd p) (Some 8)
           \<and> \<not> ch_closed (chans s' (MessageChan (snd p))) \<longrightarrow>
           (\<exists>s2. schedule pick j s' = (Ok (), s2)
              \<and> spawned s2 = take j (spawned s') @ drop (Suc j) (spawned s')
              \<and> (\<forall>d. d \<noteq> MessageChan (snd p) \<longrightarrow> chans s2 d = chans s' d)
              \<and> (\<not> length (ch_buf (chans s' (MessageChan (snd p)))) < ch_cap (chans s' (MessageChan (snd p)))
                   \<longrightarrow> ch_buf (chans s2 (MessageChan (snd p))) = ch_buf (chans s' (MessageChan (snd p))))
              \<and> (length (ch_buf (chans s' (MessageChan (snd p)))) < ch_cap (chans s' (MessageChan (snd p)))
                   \<and> \<not> shutdown s'
                   \<longrightarrow> ch_buf (chans s2 (MessageChan (snd p)))
                         = ch_buf (chans s' (MessageChan (snd p))) @ [Some 8])
              \<and> (ch_buf (chans s2 (MessageChan (snd p))) = ch_buf (chans s' (MessageChan (snd p)))
                   \<or> ch_buf (chans s2 (MessageChan (snd p)))
                         = ch_buf (chans s' (MessageChan (snd p))) @ [Some 8]))"
    and n: "\<exists>s2. run_all all_shutdown_first 0
            (map (\<lambda>sub. FanOut sub (Some 8)) (map snd (Subscribers ?T))) s1 = (Ok (), s2)
         \<and> (\<forall>p \<in> set (Subscribers ?T).
           (\<not> length (ch_buf (chans demo_published (MessageChan (snd p)))) < ch_cap (chans demo_published (MessageChan (snd p)))
              \<longrightarrow> ch_buf (chans s2 (MessageChan (snd p))) = ch_buf (chans demo_published (MessageChan (snd p))))
         \<and> (length (ch_buf (chans demo_published (MessageChan (snd p)))) < ch_cap (chans demo_published (MessageChan (snd p)))
              \<and> \<not> shutdown demo_published
              \<longrightarrow> ch_buf (chans s2 (MessageChan (snd p))) = ch_buf (chans demo_published (MessageChan (snd p))) @ [Some 8])
         \<and> (ch_buf (chans s2 (MessageChan (snd p))) = ch_buf (chans demo_published (MessageChan (snd p)))
              \<or> ch_buf (chans s2 (MessageChan (snd p))) = ch_buf (chans demo_published (MessageChan (snd p))) @ [Some 8]))"
    by blast
  from p demo_second_step have s1: "s1 = demo_second" by simp
  have 1: "fst (Publish 13 ''uuid-2'' ''orders'' (Some 8) demo_published) = Ok ()" using p by simp
  from g [rule_format, of "(''c1'', ?sub)" 0 ?sA shutdown_first]
  have 2: "ch_buf (chans (snd (schedule shutdown_first 0 ?sA)) 0) = [Some 7, Some 8]"
    by (auto simp add: sA)
  from n have 3: "ch_buf (chans (snd (run_all all_shutdown_first 0 [FanOut ?sub (Some 8)] demo_second)) 0)
      = [Some 8]"
    by (auto simp add: s1 demo_published_fields simp del: run_all.simps)
  from 1 2 3 show ?thesis by simp
qed

text \<open>
  C4 as stated fails in two ways. After \<open>Stop\<close>: client \<open>c1\<close> is attached with an open,
  empty queue of capacity 2, the publish succeeds, and the send takes the shutdown case:
  nothing is enqueued. Without \<open>Stop\<close>: \<open>c1\<close>'s queue of capacity 2 is empty when the object
  at address 9 is published, but the sends of two earlier publishes are still pending; they
  run first and fill the queue, and the send of 9 finds it full and drops the message.
\<close>

theorem Publish_fans_out_counterexample:
  "reachable demo_stopped
   \<and> map_of (Subscribers (the (map_of (topics demo_stopped) ''orders''))) ''c1''
       = Some \<lparr>ClientID = ''c1'', TopicName = ''orders'', MessageChan = 0, LastSeen = 11\<rparr>
   \<and> \<not> ch_closed (chans demo_stopped 0)
   \<and> length (ch_buf (chans demo_stopped 0)) < ch_cap (chans demo_stopped 0)
   \<and> fst (Publish 20 ''uuid-2'' ''orders'' (Some 8) demo_stopped) = Ok ()
   \<and> spawned (snd (Publish 20 ''uuid-2'' ''orders'' (Some 8) demo_stopped))
       = spawned demo_stopped
         @ [FanOut \<lparr>ClientID = ''c1'', TopicName = ''orders'', MessageChan = 0, LastSeen = 11\<rparr> (Some 8)]
   \<and> fst (run_all all_shutdown_first 0
        [FanOut \<lparr>ClientID = ''c1'', TopicName = ''orders'', MessageChan = 0, LastSeen = 11\<rparr> (Some 8)]
        (snd (Publish 20 ''uuid-2'' ''orders'' (Some 8) demo_stopped))) = Ok ()
   \<and> ch_buf (chans (snd (run_all all_shutdown_first 0
        [FanOut \<lparr>ClientID = ''c1'', TopicName = ''orders'', MessageChan = 0, LastSeen = 11\<rparr> (Some 8)]
        (snd (Publish 20 ''uuid-2'' ''orders'' (Some 8) demo_stopped)))) 0) = []
   \<and> reachable demo_second \<and> \<not> shutdown demo_second
   \<and> map_of (Subscribers (the (map_of (topics demo_second) ''orders''))) ''c1''
       = Some \<lparr>ClientID = ''c1'', TopicName = ''orders'', MessageChan = 0, LastSeen = 11\<rparr>
   \<and> chans demo_second 0 = \<lparr>ch_buf = [], ch_cap = 2, ch_closed = False\<rparr>
   \<and> Publish 14 ''uuid-3'' ''orders'' (Some 9) demo_second = (Ok (), demo_third)
   \<and> fst (schedule shutdown_first 0 (snd (schedule shutdown_first 0
            (snd (schedule shutdown_first 0 demo_third))))) = Ok ()
   \<and> spawned (snd (schedule shutdown_first 0 (snd (schedule shutdown_first 0
            (snd (schedule shutdown_first 0 demo_third)))))) = []
   \<and> ch_buf (chans (snd (schedule shutdown_first 0 (snd (schedule shutdown_first 0
            (snd (schedule shutdown_first 0 demo_third)))))) 0) = [Some 7, Some 8]"
proof -
  have stop: "reachable demo_stopped
   \<and> map_of (Subscribers (the (map_of (topics demo_stopped) ''orders''))) ''c1''
       = Some \<lparr>ClientID = ''c1'', TopicName = ''orders'', MessageChan = 0, LastSeen = 11\<rparr>
   \<and> \<not> ch_closed (chans demo_stopped 0)
   \<and> length (ch_buf (chans demo_stopped 0)) < ch_cap (chans demo_stopped 0)
   \<and> fst (Publish 20 ''uuid-2'' ''orders'' (Some 8) demo_stopped) = Ok ()
   \<and> spawned (snd (Publish 20 ''uuid-2'' ''orders'' (Some 8) demo_stopped))
       = spawned demo_stopped
         @ [FanOut \<lparr>ClientID = ''c1'', TopicName = ''orders'', MessageChan = 0, LastSeen = 11\<rparr> (Some 8)]
   \<and> fst (run_all all_shutdown_first 0
        [FanOut \<lparr>ClientID = ''c1'', TopicName = ''orders'', MessageChan = 0, LastSeen = 11\<rparr> (Some 8)]
        (snd (Publish 20 ''uuid-2'' ''orders'' (Some 8) demo_stopped))) = Ok ()
   \<and> ch_buf (chans (snd (run_all all_shutdown_first 0
        [FanOut \<lparr>ClientID = ''c1'', TopicName = ''orders'', MessageChan = 0, LastSeen = 11\<rparr> (Some 8)]
        (snd (Publish 20 ''uuid-2'' ''orders'' (Some 8) demo_stopped)))) 0) = []"
    by (simp add: demo_reachable demo_stopped_fields demo_published_fields Publish_def Let_def
        Add_def smod_nonneg run_goroutine_def run_fanout_def select_send_def all_shutdown_first_def)
  have late: "fst (schedule shutdown_first 0 (snd (schedule shutdown_first 0
            (snd (schedule shutdown_first 0 demo_third))))) = Ok ()
   \<and> spawned (snd (schedule shutdown_first 0 (snd (schedule shutdown_first 0
            (snd (schedule shutdown_first 0 demo_third)))))) = []
   \<and> ch_buf (chans (snd (schedule shutdown_first 0 (snd (schedule shutdown_first 0
            (snd (schedule shutdown_first 0 demo_third)))))) 0) = [Some 7, Some 8]"
    by (simp add: schedule_def demo_third_fields run_goroutine_def run_fanout_def
          select_send_def chan_send_def Let_def)
  from stop late show ?thesis
    by (simp add: demo_second_reachable demo_second_fields demo_third_step)
qed


text \<open>
  C3, as amended. On a topic whose ring holds the result of \<open>m\<close> publishes, with capacity
  \<open>C \<ge> 1\<close>, \<open>Subscribe\<close> with \<open>lastN = k > 0\<close> for a client that is not yet subscribed
  succeeds (the queue capacity being non-negative), attaches the subscriber with an empty
  open queue and starts one replay that carries exactly the last \<open>min k (min m C)\<close> messages,
  oldest first. Whenever the scheduler runs that replay, in whatever state the broker is by
  then, provided the service has not been stopped, the queue is still open and has room for
  all of them, the replay appends exactly these messages to the queue, in that order, after
  what the queue holds at that moment; when it is run one iteration at a time, each iteration
  that finds the service not stopped and the queue open with a free slot appends the next
  message and leaves the rest pending. In particular a replay run right after \<open>Subscribe\<close>
  on a broker that is not stopped, with queue capacity at least \<open>min k (min m C)\<close>,
  leaves exactly these messages in the queue. What the replay does on a queue closed in the
  meantime is not part of the statement.
\<close>

theorem Subscribe_replays:
  assumes "map_of (topics s) t = Some topic" and "map_of (Subscribers topic) c = None"
    and "1 \<le> C" and "NewRingBuffer C = Inr rb0" and "add_all rb0 (map Some xs) = Inr (Messages topic)"
    and "0 < k" and "0 \<le> ChannelBufferSize (config s)"
  shows "\<exists>sub s1. Subscribe now t c k s = (Ok sub, s1)
      \<and> spawned s1 = spawned s @ [Replay sub (map Some (drop (length xs - nat (min k (min (int (length xs)) C))) xs))]
      \<and> length (drop (length xs - nat (min k (min (int (length xs)) C))) xs) = nat (min k (min (int (length xs)) C))
      \<and> map_of (Subscribers (the (map_of (topics s1) t))) c = Some sub
      \<and> chans s1 (MessageChan sub)
           = \<lparr>ch_buf = [], ch_cap = nat (ChannelBufferSize (config s)), ch_closed = False\<rparr>
      \<and> (\<forall>s' pick j.
            j < length (spawned s')
            \<and> spawned s' ! j = Replay sub (map Some (drop (length xs - nat (min k (min (int (length xs)) C))) xs))
            \<and> \<not> shutdown s' \<and> \<not> ch_closed (chans s' (MessageChan sub))
            \<and> length (ch_buf (chans s' (MessageChan sub))) + nat (min k (min (int (length xs)) C))
                 \<le> ch_cap (chans s' (MessageChan sub)) \<longrightarrow>
            (\<exists>s2. schedule pick j s' = (Ok (), s2)
               \<and> spawned s2 = take j (spawned s') @ drop (Suc j) (spawned s')
               \<and> (\<forall>d. d \<noteq> MessageChan sub \<longrightarrow> chans s2 d = chans s' d)
               \<and> ch_buf (chans s2 (MessageChan sub))
                    = ch_buf (chans s' (MessageChan sub))
                      @ map Some (drop (length xs - nat (min k (min (int (length xs)) C))) xs)))
      \<and> (\<forall>s' p j msg rest.
            j < length (spawned s') \<and> spawned s' ! j = Replay sub (msg # rest)
            \<and> \<not> shutdown s' \<and> \<not> ch_closed (chans s' (MessageChan sub))
            \<and> length (ch_buf (chans s' (MessageChan sub))) < ch_cap (chans s' (MessageChan sub)) \<longrightarrow>
            (\<exists>s2. replay_step p j s' = (Ok (), s2)
               \<and> spawned s2 = (spawned s')[j := Replay sub rest]
               \<and> (\<forall>d. d \<noteq> MessageChan sub \<longrightarrow> chans s2 d = chans s' d)
               \<and> ch_buf (chans s2 (MessageChan sub)) = ch_buf (chans s' (MessageChan sub)) @ [msg]))
      \<and> (\<not> shutdown s \<and> min k (min (int (length xs)) C) \<le> ChannelBufferSize (config s) \<longrightarrow>
            (\<exists>s2. run_goroutine pick0
                     (Replay sub (map Some (drop (length xs - nat (min k (min (int (length xs)) C))) xs))) s1
                   = (Ok (), s2)
               \<and> ch_buf (chans s2 (MessageChan sub))
                    = map Some (drop (length xs - nat (min k (min (int (length xs)) C))) xs)))"
proof -
  let ?n = "min k (min (int (length xs)) C)"
  let ?h = "map Some (drop (length xs - nat ?n) xs)"
  from assms(3) have C0: "0 \<le> C" by simp
  from ring_holds_new [OF C0] assms(4) have h0: "ring_holds C [] rb0" by auto
  from add_all_holds [OF assms(3) h0, of "map Some xs"] assms(5)
  have rh: "ring_holds C (map Some xs) (Messages topic)" by auto
  have g: "GetLastN (Messages topic) k = Inr ?h" by (rule GetLastN_holds [OF assms(3) rh])
  have n0: "0 \<le> ?n" using assms(3,6) by (simp add: min_def)
  have B: "\<not> ChannelBufferSize (config s) < 0" using assms(7) by simp
  let ?ch = "\<lparr>ch_buf = [], ch_cap = nat (ChannelBufferSize (config s)), ch_closed = False\<rparr>"
  have mk: "make_chan (ChannelBufferSize (config s)) = Inr ?ch" using B by (simp add: make_chan_def)
  define sub where "sub = \<lparr>ClientID = c, TopicName = t, MessageChan = next_chan s, LastSeen = now\<rparr>"
  define s1 where "s1 = s\<lparr>chans := (chans s)(next_chan s := ?ch),
                               next_chan := Suc (next_chan s),
                               topics := AList.update t
                                 (topic\<lparr>Subscribers := AList.update c sub (Subscribers topic)\<rparr>)
                                 (topics s),
                               spawned := spawned s @ [Replay sub ?h]\<rparr>"
  have sb: "Subscribe now t c k s = (Ok sub, s1)"
    using assms(1,2,6) mk g by (simp add: Subscribe_def Let_def sub_def s1_def)
  have sp: "spawned s1 = spawned s @ [Replay sub ?h]" by (simp add: s1_def)
  have len: "length (drop (length xs - nat ?n) xs) = nat ?n" by auto
  have lenh: "length ?h = nat ?n" using len by simp
  have at: "map_of (Subscribers (the (map_of (topics s1) t))) c = Some sub"
    by (simp add: s1_def update_conv')
  have mc: "MessageChan sub = next_chan s" by (simp add: sub_def)
  have e: "chans s1 (MessageChan sub) = ?ch" by (simp add: s1_def mc)
  have whole: "\<exists>s2. schedule pick j s' = (Ok (), s2)
               \<and> spawned s2 = take j (spawned s') @ drop (Suc j) (spawned s')
               \<and> (\<forall>d. d \<noteq> MessageChan sub \<longrightarrow> chans s2 d = chans s' d)
               \<and> ch_buf (chans s2 (MessageChan sub)) = ch_buf (chans s' (MessageChan sub)) @ ?h"
    if "j < length (spawned s') \<and> spawned s' ! j = Replay sub ?h
            \<and> \<not> shutdown s' \<and> \<not> ch_closed (chans s' (MessageChan sub))
            \<and> length (ch_buf (chans s' (MessageChan sub))) + nat ?n
                 \<le> ch_cap (chans s' (MessageChan sub))" for s' pick j
  proof -
    from that have a: "j < length (spawned s')" "spawned s' ! j = Replay sub ?h"
      "\<not> shutdown s'" "\<not> ch_closed (chans s' (MessageChan sub))"
      "length (ch_buf (chans s' (MessageChan sub))) + length ?h \<le> ch_cap (chans s' (MessageChan sub))"
      unfolding lenh by simp_all
    show ?thesis by (rule schedule_replay [OF a])
  qed
  have one: "\<exists>s2. replay_step p j s' = (Ok (), s2)
               \<and> spawned s2 = (spawned s')[j := Replay sub rest]
               \<and> (\<forall>d. d \<noteq> MessageChan sub \<longrightarrow> chans s2 d = chans s' d)
               \<and> ch_buf (chans s2 (MessageChan sub)) = ch_buf (chans s' (MessageChan sub)) @ [msg]"
    if "j < length (spawned s') \<and> spawned s' ! j = Replay sub (msg # rest)
            \<and> \<not> shutdown s' \<and> \<not> ch_closed (chans s' (MessageChan sub))
            \<and> length (ch_buf (chans s' (MessageChan sub))) < ch_cap (chans s' (MessageChan sub))"
    for s' p j msg rest
  proof -
    from that have a: "j < length (spawned s')" "spawned s' ! j = Replay sub (msg # rest)"
      "\<not> shutdown s'" "\<not> ch_closed (chans s' (MessageChan sub))"
      "length (ch_buf (chans s' (MessageChan sub))) < ch_cap (chans s' (MessageChan sub))"
      by simp_all
    show ?thesis by (rule replay_step_room [OF a])
  qed
  have atonce: "\<exists>s2. run_goroutine pick0 (Replay sub ?h) s1 = (Ok (), s2)
               \<and> ch_buf (chans s2 (MessageChan sub)) = ?h"
    if "\<not> shutdown s \<and> ?n \<le> ChannelBufferSize (config s)"
  proof -
    from that have ns: "\<not> shutdown s1" by (simp add: s1_def)
    have op: "\<not> ch_closed (chans s1 (MessageChan sub))" by (simp add: e)
    from that have "nat ?n \<le> nat (ChannelBufferSize (config s))" by (intro nat_mono) simp
    then have cap: "length (ch_buf (chans s1 (MessageChan sub))) + length ?h \<le> ch_cap (chans s1 (MessageChan sub))"
      unfolding e lenh by simp
    from run_replay_room [OF ns op cap, of pick0 0] show ?thesis
      by (simp add: run_goroutine_def e)
  qed
  show ?thesis
    apply (rule exI [of _ sub])
    apply (rule exI [of _ s1])
    apply (intro conjI)
           apply (rule sb)
          apply (rule sp)
         apply (rule len)
        apply (rule at)
       apply (rule e)
      apply (intro allI impI)
      apply (rule whole)
      apply assumption
     apply (intro allI impI)
     apply (rule one)
     apply assumption
    apply (intro impI)
    apply (rule atonce)
    apply assumption
    done
qed


theorem Subscribe_replays_witness:
  "fst (Subscribe 20 ''orders'' ''c2'' 5 demo_second)
     = Ok \<lparr>ClientID = ''c2'', TopicName = ''orders'', MessageChan = 1, LastSeen = 20\<rparr>
   \<and> ch_buf (chans (snd (schedule shutdown_first 1
        (snd (schedule shutdown_first 0 (snd (Subscribe 20 ''orders'' ''c2'' 5 demo_second)))))) 1)
       = [Some 7, Some 8]
   \<and> ch_buf (chans (snd (replay_step True 2 (snd (Subscribe 20 ''orders'' ''c2'' 5 demo_second)))) 1)
       = [Some 7]
   \<and> ch_buf (chans (snd (run_goroutine shutdown_first
        (Replay \<lparr>ClientID = ''c2'', TopicName = ''orders'', MessageChan = 1, LastSeen = 20\<rparr>
           [Some 7, Some 8])
        (snd (Subscribe 20 ''orders'' ''c2'' 5 demo_second)))) 1) = [Some 7, Some 8]"
proof -
  let ?c1 = "\<lparr>ClientID = ''c1'', TopicName = ''orders'', MessageChan = 0, LastSeen = 11\<rparr>"
  let ?c2 = "\<lparr>ClientID = ''c2'', TopicName = ''orders'', MessageChan = 1, LastSeen = 20\<rparr>"
  let ?T = "\<lparr>Name = ''orders'', Subscribers = [(''c1'', ?c1)],
      Messages = \<lparr>rb_buffer = [Some 7, Some 8], rb_size = 2, rb_head = 0, rb_tail = 0, rb_count = 2\<rparr>,
      CreatedAt = 10\<rparr>"
  let ?s1 = "snd (Subscribe 20 ''orders'' ''c2'' 5 demo_second)"
  let ?sB = "snd (schedule shutdown_first 0 ?s1)"
  have t: "map_of (topics demo_second) ''orders'' = Some ?T" by (simp add: demo_second_fields)
  have f: "map_of (Subscribers ?T) ''c2'' = None" by simp
  have C: "(1::int) \<le> 2" by simp
  have n: "NewRingBuffer 2 = Inr \<lparr>rb_buffer = [None, None], rb_size = 2, rb_head = 0, rb_tail = 0, rb_count = 0\<rparr>"
    by (simp add: NewRingBuffer_def numeral_2_eq_2)
  have a: "add_all \<lparr>rb_buffer = [None, None], rb_size = 2, rb_head = 0, rb_tail = 0, rb_count = 0\<rparr>
      (map Some [7, 8]) = Inr (Messages ?T)"
    by (simp add: Add_def smod_nonneg)
  have k: "(0::int) < 5" by simp
  have B: "0 \<le> ChannelBufferSize (config demo_second)"
    by (simp add: demo_second_fields small_config_def)
  have hh: "map Some (drop (length [7::nat, 8] - nat (min 5 (min (int (length [7::nat, 8])) 2))) [7, 8])
      = [Some 7, Some 8]" by simp
  have nn: "nat (min 5 (min (int (length [7::nat, 8])) 2)) = 2" by simp
  have sv: "Subscribe 20 ''orders'' ''c2'' 5 demo_second = (Ok ?c2, ?s1)"
    by (simp add: Subscribe_def demo_second_fields small_config_def make_chan_def Let_def
          GetLastN_def collect_loop.simps reverse_loop.simps smod_nonneg)
  have s1: "spawned ?s1 = [FanOut ?c1 (Some 7), FanOut ?c1 (Some 8), Replay ?c2 [Some 7, Some 8]]"
    "chans ?s1 0 = \<lparr>ch_buf = [], ch_cap = 2, ch_closed = False\<rparr>"
    "chans ?s1 1 = \<lparr>ch_buf = [], ch_cap = 2, ch_closed = False\<rparr>"
    "chans ?s1 (Suc 0) = \<lparr>ch_buf = [], ch_cap = 2, ch_closed = False\<rparr>" "\<not> shutdown ?s1"
    by (simp_all add: Subscribe_def demo_second_fields small_config_def make_chan_def Let_def
          GetLastN_def collect_loop.simps reverse_loop.simps smod_nonneg)
  have sB: "spawned ?sB = [FanOut ?c1 (Some 8), Replay ?c2 [Some 7, Some 8]]"
    "chans ?sB 1 = \<lparr>ch_buf = [], ch_cap = 2, ch_closed = False\<rparr>"
    "chans ?sB (Suc 0) = \<lparr>ch_buf = [], ch_cap = 2, ch_closed = False\<rparr>" "\<not> shutdown ?sB"
    by (simp_all add: schedule_def s1 run_goroutine_def run_fanout_def select_send_def
          chan_send_def Let_def)
  from Subscribe_replays [OF t f C n a k B, of 20 shutdown_first]
  obtain sub s1' where sb: "Subscribe 20 ''orders'' ''c2'' 5 demo_second = (Ok sub, s1')"
    and whole: "\<forall>s' pick j.
            j < length (spawned s') \<and> spawned s' ! j = Replay sub [Some 7, Some 8]
            \<and> \<not> shutdown s' \<and> \<not> ch_closed (chans s' (MessageChan sub))
            \<and> length (ch_buf (chans s' (MessageChan sub))) + 2 \<le> ch_cap (chans s' (MessageChan sub)) \<longrightarrow>
            (\<exists>s2. schedule pick j s' = (Ok (), s2)
               \<and> spawned s2 = take j (spawned s') @ drop (Suc j) (spawned s')
               \<and> (\<forall>d. d \<noteq> MessageChan sub \<longrightarrow> chans s2 d = chans s' d)
               \<and> ch_buf (chans s2 (MessageChan sub))
                    = ch_buf (chans s' (MessageChan sub)) @ [Some 7, Some 8])"
    and one: "\<forall>s' p j msg rest.
            j < length (spawned s') \<and> spawned s' ! j = Replay sub (msg # rest)
            \<and> \<not> shutdown s' \<and> \<not> ch_closed (chans s' (MessageChan sub))
            \<and> length (ch_buf (chans s' (MessageChan sub))) < ch_cap (chans s' (MessageChan sub)) \<longrightarrow>
            (\<exists>s2. replay_step p j s' = (Ok (), s2)
               \<and> spawned s2 = (spawned s')[j := Replay sub rest]
               \<and> (\<forall>d. d \<noteq> MessageChan sub \<longrightarrow> chans s2 d = chans s' d)
               \<and> ch_buf (chans s2 (MessageChan sub)) = ch_buf (chans s' (MessageChan sub)) @ [msg])"
    and atonce: "\<not> shutdown demo_second \<and> (2::int) \<le> ChannelBufferSize (config demo_second) \<longrightarrow>
            (\<exists>s2. run_goroutine shutdown_first (Replay sub [Some 7, Some 8]) s1' = (Ok (), s2)
               \<and> ch_buf (chans s2 (MessageChan sub)) = [Some 7, Some 8])"
    unfolding hh nn by auto
  from sb sv have e: "sub = ?c2" "s1' = ?s1" by simp_all
  have 1: "fst (Subscribe 20 ''orders'' ''c2'' 5 demo_second) = Ok ?c2"
    using arg_cong [OF sv, of fst] by simp
  from whole [rule_format, of 1 ?sB shutdown_first]
  have 2: "ch_buf (chans (snd (schedule shutdown_first 1 ?sB)) 1) = [Some 7, Some 8]"
    unfolding e by (auto simp add: sB)
  from one [rule_format, of 2 ?s1 "Some 7" "[Some 8]" True]
  have 3: "ch_buf (chans (snd (replay_step True 2 ?s1)) 1) = [Some 7]"
    unfolding e by (auto simp add: s1)
  from atonce
  have 4: "ch_buf (chans (snd (run_goroutine shutdown_first (Replay ?c2 [Some 7, Some 8]) ?s1)) 1)
      = [Some 7, Some 8]"
    unfolding e by (auto simp add: demo_second_fields small_config_def)
  from 1 2 3 4 show ?thesis by simp
qed

text \<open>
  C3 as stated fails after \<open>Stop\<close>: the ring holds one message, client \<open>c2\<close> subscribes with
  \<open>lastN = 1\<close> and gets a queue of capacity 2, but the replay takes the shutdown case and
  enqueues nothing.
\<close>

theorem Subscribe_replays_counterexample:
  "reachable demo_stopped
   \<and> map_of (Subscribers (the (map_of (topics demo_stopped) ''orders''))) ''c2'' = None
   \<and> Count (Messages (the (map_of (topics demo_stopped) ''orders''))) = 1
   \<and> fst (Subscribe 20 ''orders'' ''c2'' 1 demo_stopped)
       = Ok \<lparr>ClientID = ''c2'', TopicName = ''orders'', MessageChan = 1, LastSeen = 20\<rparr>
   \<and> spawned (snd (Subscribe 20 ''orders'' ''c2'' 1 demo_stopped))
       = spawned demo_stopped
         @ [Replay \<lparr>ClientID = ''c2'', TopicName = ''orders'', MessageChan = 1, LastSeen = 20\<rparr> [Some 7]]
   \<and> ch_cap (chans (snd (Subscribe 20 ''orders'' ''c2'' 1 demo_stopped)) 1) = 2
   \<and> fst (run_goroutine shutdown_first
        (Replay \<lparr>ClientID = ''c2'', TopicName = ''orders'', MessageChan = 1, LastSeen = 20\<rparr> [Some 7])
        (snd (Subscribe 20 ''orders'' ''c2'' 1 demo_stopped))) = Ok ()
   \<and> ch_buf (chans (snd (run_goroutine shutdown_first
        (Replay \<lparr>ClientID = ''c2'', TopicName = ''orders'', MessageChan = 1, LastSeen = 20\<rparr> [Some 7])
        (snd (Subscribe 20 ''orders'' ''c2'' 1 demo_stopped)))) 1) = []"
  by (simp add: demo_reachable demo_stopped_fields demo_published_fields Subscribe_def Let_def
        small_config_def make_chan_def GetLastN_def collect_loop.simps reverse_loop.simps
        smod_nonneg Count_def run_goroutine_def select_send_def shutdown_first_def)

end
